theory Spec2Isabelle
  imports Complex_Main "HOL-Library.Word"
begin

unbundle bit_operations_syntax

section \<open>Scalar math primitives of \<open>Library/Math/math_op.h\<close>\<close>

text \<open>
  The header \<open>math_op.h\<close> (namespace \<open>FriendSmasher::Math\<close>) is a set of
  stateless inline functions over \<open>unsigned int\<close>, \<open>int\<close> and \<open>float\<close>.
  An \<open>unsigned int\<close> is a 32-bit word; an \<open>int\<close> is the same word read through
  \<open>sint\<close>; a \<open>float\<close> is its IEEE-754 binary32 bit pattern, again a 32-bit word.
\<close>

type_synonym u32 = "32 word"
type_synonym f32 = "32 word"

subsection \<open>Power-of-two and bit utilities\<close>

text \<open>
  \<^verbatim>\<open>unsigned int NextPow2(unsigned int x)
  { --x; x |= x >> 1; x |= x >> 2; x |= x >> 4; x |= x >> 8; x |= x >> 16; return ++x; }\<close>
\<close>

definition NextPow2 :: "u32 \<Rightarrow> u32" where
  "NextPow2 x0 =
     (let x = x0 - 1;
          x = x OR drop_bit 1 x;
          x = x OR drop_bit 2 x;
          x = x OR drop_bit 4 x;
          x = x OR drop_bit 8 x;
          x = x OR drop_bit 16 x
      in x + 1)"

text \<open>
  \<^verbatim>\<open>unsigned int PrevPow2(unsigned int n)
  { if (!n) return n; int x = 1; while (x < n) { x <<= 1; } return x >>= 1; }\<close>

  The loop variable \<open>x\<close> is an \<open>int\<close>; in \<open>x < n\<close> it is converted to
  \<open>unsigned int\<close>, so the comparison is the unsigned one on the bit pattern. The left
  shift wraps modulo \<open>2 ^ 32\<close>, the final right shift is the arithmetic one of a signed
  value. The loop may fail to return, so it is a partial function into \<open>option\<close>:
  \<open>None\<close> is a run that never leaves the loop.
\<close>

partial_function (option) PrevPow2_loop :: "u32 \<Rightarrow> u32 \<Rightarrow> u32 option" where
  "PrevPow2_loop x n = (if x < n then PrevPow2_loop (push_bit 1 x) n else Some x)"

declare PrevPow2_loop.simps [code]

definition PrevPow2 :: "u32 \<Rightarrow> u32 option" where
  "PrevPow2 n = (if n = 0 then Some n
                 else map_option (signed_drop_bit 1) (PrevPow2_loop 1 n))"

text \<open>
  \<^verbatim>\<open>int BitCount(unsigned int u)
  { unsigned int uCount;
    uCount = u - ((u >> 1) & 033333333333) - ((u >> 2) & 011111111111);
    return ((uCount + (uCount >> 3)) & 030707070707) % 63; }\<close>

  The octal constants are \<open>033333333333 = 0xDB6DB6DB\<close>,
  \<open>011111111111 = 0x49249249\<close> and \<open>030707070707 = 0xC71C71C7\<close>.
\<close>

definition BitCount :: "u32 \<Rightarrow> int" where
  "BitCount u =
     (let uCount = u - (drop_bit 1 u AND 0xDB6DB6DB) - (drop_bit 2 u AND 0x49249249)
      in sint (((uCount + drop_bit 3 uCount) AND 0xC71C71C7) mod 63))"

text \<open>
  \<open>HighestBitSet\<close> has two bodies, selected by the compiler. Under \<open>_MSC_VER\<close>:
  \<^verbatim>\<open>unsigned int x = u;
  x |= (x >> 1); x |= (x >> 2); x |= (x >> 4); x |= (x >> 8); x |= (x >> 16);
  return(31 - BitCount(x));\<close>
\<close>

definition HighestBitSet_msc :: "u32 \<Rightarrow> int" where
  "HighestBitSet_msc u =
     (let x = u;
          x = x OR drop_bit 1 x;
          x = x OR drop_bit 2 x;
          x = x OR drop_bit 4 x;
          x = x OR drop_bit 8 x;
          x = x OR drop_bit 16 x
      in 31 - BitCount x)"

text \<open>
  Under \<open>__GNUC__\<close>: \<^verbatim>\<open>unsigned int v = 31 - __builtin_clz(u); return v;\<close>
  The intrinsic \<open>__builtin_clz\<close> belongs to the compiler, not to this repository: it
  returns the number of leading zero bits of its argument, counted from bit 31 downwards,
  and its result is undefined for the argument 0. \<open>clz_from i u\<close> counts the zero bits
  below position \<open>i\<close> down to the first set bit; an undefined result is \<open>None\<close>.
\<close>

fun clz_from :: "nat \<Rightarrow> u32 \<Rightarrow> nat" where
  "clz_from 0 u = 0"
| "clz_from (Suc i) u = (if bit u i then 0 else Suc (clz_from i u))"

definition builtin_clz :: "u32 \<Rightarrow> nat option" where
  "builtin_clz u = (if u = 0 then None else Some (clz_from 32 u))"

definition HighestBitSet_gnu :: "u32 \<Rightarrow> int option" where
  "HighestBitSet_gnu u = map_option (\<lambda>z. 31 - int z) (builtin_clz u)"

subsection \<open>IEEE-754 binary32 arithmetic\<close>

text \<open>
  The \<open>float\<close> operators of the target are those of IEEE-754 binary32 with
  round-to-nearest, ties-to-even. A pattern has a sign bit (bit 31) and a 31-bit magnitude
  (8 exponent bits, 23 fraction bits). Magnitudes above \<open>0x7F800000\<close> are NaNs,
  \<open>0x7F800000\<close> is infinity. Every finite value is an integer multiple of
  \<open>2 ^ -149\<close>; \<open>scaled m\<close> is the value of the magnitude \<open>m\<close> in that unit
  (subnormals and the first binade are \<open>m\<close> itself), and it maps the magnitude of
  infinity to \<open>2 ^ 277\<close>, that is \<open>2 ^ 128\<close>, the first value beyond the finite range.
\<close>

definition f_sign :: "f32 \<Rightarrow> bool" where
  "f_sign w = bit w 31"

definition f_mag :: "f32 \<Rightarrow> int" where
  "f_mag w = uint (take_bit 31 w)"

definition is_nan :: "f32 \<Rightarrow> bool" where
  "is_nan w = (0x7F800000 < f_mag w)"

definition is_inf :: "f32 \<Rightarrow> bool" where
  "is_inf w = (f_mag w = 0x7F800000)"

definition is_finite :: "f32 \<Rightarrow> bool" where
  "is_finite w = (f_mag w < 0x7F800000)"

definition scaled :: "int \<Rightarrow> int" where
  "scaled m = (if m div 2 ^ 23 = 0 then m
               else (2 ^ 23 + m mod 2 ^ 23) * 2 ^ nat (m div 2 ^ 23 - 1))"

definition f_val :: "f32 \<Rightarrow> int" where
  "f_val w = (if f_sign w then - scaled (f_mag w) else scaled (f_mag w))"

text \<open>The comparison \<open>a < b\<close> on floats: false when either side is a NaN; \<open>-0 = +0\<close>.\<close>

definition flt :: "f32 \<Rightarrow> f32 \<Rightarrow> bool" where
  "flt a b = (\<not> is_nan a \<and> \<not> is_nan b \<and> f_val a < f_val b)"

text \<open>
  Rounding a non-negative rational \<open>x\<close> (in units of \<open>2 ^ -149\<close>) to a magnitude.
  Below \<open>2 ^ 24\<close> the representable values are the integers; in the binade
  \<open>2 ^ (k + 23) \<le> x < 2 ^ (k + 24)\<close> they are the multiples of \<open>2 ^ k\<close>. The
  quotient \<open>x / 2 ^ k\<close> is rounded to the nearest integer \<open>n\<close>, ties to the even one;
  a rounded value of \<open>2 ^ 128\<close> or more overflows to infinity. The pattern of
  \<open>n * 2 ^ k\<close> is \<open>k * 2 ^ 23 + n\<close>.
\<close>

function ilog2 :: "int \<Rightarrow> nat" where
  "ilog2 n = (if n < 2 then 0 else Suc (ilog2 (n div 2)))"
  by pat_completeness auto
termination
  by (relation "measure nat") auto

declare ilog2.simps [simp del]

definition spacing :: "rat \<Rightarrow> nat" where
  "spacing x = ilog2 \<lfloor>x\<rfloor> - 23"

definition rhe :: "rat \<Rightarrow> int" where
  "rhe y = (let f = \<lfloor>y\<rfloor>; d = y - of_int f
            in if d < 1 / 2 then f
               else if 1 / 2 < d then f + 1
               else if even f then f else f + 1)"

definition round_mag :: "rat \<Rightarrow> int" where
  "round_mag x =
     (let k = spacing x; n = rhe (x / 2 ^ k)
      in if 2 ^ 277 \<le> n * 2 ^ k then 0x7F800000 else int k * 2 ^ 23 + n)"

definition mk_f32 :: "bool \<Rightarrow> int \<Rightarrow> f32" where
  "mk_f32 s m = (if s then 0x80000000 else 0) OR word_of_int m"

definition f_round :: "rat \<Rightarrow> f32" where
  "f_round x = (if x < 0 then mk_f32 True (round_mag (- x)) else mk_f32 False (round_mag x))"

definition f_nan :: f32 where
  "f_nan = 0x7FC00000"

definition fneg :: "f32 \<Rightarrow> f32" where
  "fneg a = a XOR 0x80000000"

text \<open>
  Addition: a NaN operand or \<open>\<infinity> + (-\<infinity>)\<close> gives the quiet NaN; an infinity
  absorbs a finite operand; finite operands are added exactly and rounded. An exact zero
  sum is \<open>-0\<close> only when both operands are negative zeros.
\<close>

definition fadd :: "f32 \<Rightarrow> f32 \<Rightarrow> f32" where
  "fadd a b =
     (if is_nan a \<or> is_nan b then f_nan
      else if is_inf a then (if is_inf b \<and> f_sign a \<noteq> f_sign b then f_nan else a)
      else if is_inf b then b
      else let r = f_val a + f_val b
           in if r = 0 then mk_f32 (f_sign a \<and> f_sign b) 0
              else f_round (of_int r))"

definition fsub :: "f32 \<Rightarrow> f32 \<Rightarrow> f32" where
  "fsub a b = fadd a (fneg b)"

definition fdiv :: "f32 \<Rightarrow> f32 \<Rightarrow> f32" where
  "fdiv a b =
     (let s = (f_sign a \<noteq> f_sign b) in
      if is_nan a \<or> is_nan b then f_nan
      else if is_inf a then (if is_inf b then f_nan else mk_f32 s 0x7F800000)
      else if is_inf b then mk_f32 s 0
      else if f_mag b = 0 then (if f_mag a = 0 then f_nan else mk_f32 s 0x7F800000)
      else mk_f32 s (round_mag (of_int (scaled (f_mag a)) * 2 ^ 149 / of_int (scaled (f_mag b)))))"

text \<open>Conversion \<open>int \<rightarrow> float\<close> rounds; \<open>float \<rightarrow> int\<close> truncates towards zero
  and is undefined (\<open>None\<close>) for a NaN, an infinity or a value outside the \<open>int\<close> range.\<close>

definition i2f :: "int \<Rightarrow> f32" where
  "i2f i = f_round (of_int i * 2 ^ 149)"

definition f2i :: "f32 \<Rightarrow> int option" where
  "f2i a =
     (if is_nan a \<or> is_inf a then None
      else let t = (if f_sign a then - (scaled (f_mag a) div 2 ^ 149)
                    else scaled (f_mag a) div 2 ^ 149)
           in if - (2 ^ 31) \<le> t \<and> t < 2 ^ 31 then Some t else None)"

text \<open>The literals \<open>0.f\<close>, \<open>1.f\<close> and \<open>-1.f\<close>.\<close>

definition f_zero :: f32 where "f_zero = 0x00000000"
definition f_one :: f32 where "f_one = 0x3F800000"
definition f_minus_one :: f32 where "f_minus_one = 0xBF800000"

subsection \<open>Comparison, sign, clamping, normalisation, rounding\<close>

text \<open>
  \<^verbatim>\<open>bool approxf(const float& f1, const float& f2, const float& epsilon)
  { return (f1 > (f2-epsilon) && f1 < (f2+epsilon)); }\<close>
\<close>

definition approxf :: "f32 \<Rightarrow> f32 \<Rightarrow> f32 \<Rightarrow> bool" where
  "approxf f1 f2 epsilon = (flt (fsub f2 epsilon) f1 \<and> flt f1 (fadd f2 epsilon))"

text \<open>
  \<^verbatim>\<open>template<typename T> T Sign(T k) { return k < (T)0 ? (T)-1 : (T)1; }\<close>
  at \<open>T = float\<close> and at \<open>T = int\<close>, and the overload
  \<^verbatim>\<open>float Sign(float k)
  { reinterpret_cast<unsigned&>(k) = (reinterpret_cast<unsigned&>(k) & 0x80000000) | 0x3f800000;
    return k; }\<close>
\<close>

definition Sign_generic :: "f32 \<Rightarrow> f32" where
  "Sign_generic k = (if flt k f_zero then f_minus_one else f_one)"

definition Sign_int :: "u32 \<Rightarrow> u32" where
  "Sign_int k = (if sint k < 0 then - 1 else 1)"

definition Sign_float :: "f32 \<Rightarrow> f32" where
  "Sign_float k = (k AND 0x80000000) OR 0x3F800000"

text \<open>
  \<^verbatim>\<open>float Saturate(float v) { v = (v > 1.f) ? 1.f : v; v = (v < 0.f) ? 0.f : v; return v; }
  void Saturate(float* v) { *v = (*v > 1.f) ? 1.f : *v; *v = (*v < 0.f) ? 0.f : *v; }\<close>
  The second overload writes through its pointer: the memory is a store from addresses to
  float patterns, and the call returns the updated store.
\<close>

definition Saturate :: "f32 \<Rightarrow> f32" where
  "Saturate v0 =
     (let v = (if flt f_one v0 then f_one else v0);
          v = (if flt v f_zero then f_zero else v)
      in v)"

type_synonym store = "nat \<Rightarrow> f32"

definition Saturate_ptr :: "nat \<Rightarrow> store \<Rightarrow> store" where
  "Saturate_ptr p h0 =
     (let h = h0(p := (if flt f_one (h0 p) then f_one else h0 p));
          h = h(p := (if flt (h p) f_zero then f_zero else h p))
      in h)"

text \<open>
  \<^verbatim>\<open>template<class T> T Clamp(T value, T min, T max)
  { if( min > max ) { T temp = min; min = max; max = temp; }
    if (value < min) return min; else if (max < value) return max; else return value; }\<close>
  at \<open>T = float\<close>.
\<close>

definition Clamp :: "f32 \<Rightarrow> f32 \<Rightarrow> f32 \<Rightarrow> f32" where
  "Clamp v mn0 mx0 =
     (let (mn, mx) = (if flt mx0 mn0 then (mx0, mn0) else (mn0, mx0))
      in if flt v mn then mn else if flt mx v then mx else v)"

text \<open>
  \<^verbatim>\<open>template<class T> T Normalize(T value, T min, T max)
  { if (value < min) return min; else if (max < value) return max;
    else { float fRange = max-min; float fDelta = value - min; return fDelta/fRange; } }\<close>
  at \<open>T = float\<close>.
\<close>

definition Normalize :: "f32 \<Rightarrow> f32 \<Rightarrow> f32 \<Rightarrow> f32" where
  "Normalize v mn mx =
     (if flt v mn then mn
      else if flt mx v then mx
      else let fRange = fsub mx mn; fDelta = fsub v mn in fdiv fDelta fRange)"

text \<open>
  \<^verbatim>\<open>int RoundToNearest(int nInput, int nNearest)
  { if(nNearest>nInput || nNearest <= 0) return nInput;
    float x = float(nInput%nNearest);
    return ( x < (nNearest/2) ) ? (int)(nInput - x) : (int)(nInput + (nNearest-x)); }\<close>

  \<open>%\<close> and \<open>/\<close> on \<open>int\<close> truncate towards zero. In \<open>x < (nNearest/2)\<close> the
  quotient is computed on \<open>int\<close> and then converted to \<open>float\<close>; in the two results
  the \<open>int\<close> operands are converted to \<open>float\<close> before the arithmetic. A cast whose
  value does not fit an \<open>int\<close> is undefined: \<open>None\<close>.
\<close>

definition c_div :: "int \<Rightarrow> int \<Rightarrow> int" where
  "c_div a b = sgn a * sgn b * (\<bar>a\<bar> div \<bar>b\<bar>)"

definition c_rem :: "int \<Rightarrow> int \<Rightarrow> int" where
  "c_rem a b = sgn a * (\<bar>a\<bar> mod \<bar>b\<bar>)"

definition RoundToNearest :: "u32 \<Rightarrow> u32 \<Rightarrow> u32 option" where
  "RoundToNearest nInput nNearest =
     (if sint nInput < sint nNearest \<or> sint nNearest \<le> 0 then Some nInput
      else let x = i2f (c_rem (sint nInput) (sint nNearest))
           in if flt x (i2f (c_div (sint nNearest) 2))
              then map_option word_of_int (f2i (fsub (i2f (sint nInput)) x))
              else map_option word_of_int
                     (f2i (fadd (i2f (sint nInput)) (fsub (i2f (sint nNearest)) x))))"

subsection \<open>Reference notions used in the statements\<close>

text \<open>The value to which a non-negative rational is rounded, before overflow.\<close>

definition rounded :: "rat \<Rightarrow> int" where
  "rounded x = rhe (x / 2 ^ spacing x) * 2 ^ spacing x"

text \<open>The number of set bits of a 32-bit word.\<close>

definition popcount :: "u32 \<Rightarrow> nat" where
  "popcount u = length (filter (bit u) [0..<32])"

text \<open>The bit-smearing prefix shared by \<open>NextPow2\<close> and \<open>HighestBitSet\<close>.\<close>

definition smear :: "u32 \<Rightarrow> u32" where
  "smear x0 =
     (let x = x0 OR drop_bit 1 x0;
          x = x OR drop_bit 2 x;
          x = x OR drop_bit 4 x;
          x = x OR drop_bit 8 x;
          x = x OR drop_bit 16 x
      in x)"

text \<open>
  Auxiliary functions on \<open>nat\<close> for the bit count: the three octal masks with \<open>k\<close>
  groups of six bits, the two steps of the computation with arbitrary masks, the first
  step on one group, and the number of set bits among the low \<open>k\<close> bits.
\<close>

fun m3 :: "nat \<Rightarrow> nat" where
  "m3 0 = 0"
| "m3 (Suc k) = 64 * m3 k + 27"

fun m1 :: "nat \<Rightarrow> nat" where
  "m1 0 = 0"
| "m1 (Suc k) = 64 * m1 k + 9"

fun m7 :: "nat \<Rightarrow> nat" where
  "m7 0 = 0"
| "m7 (Suc k) = 64 * m7 k + 7"

definition cnt :: "nat \<Rightarrow> nat \<Rightarrow> nat \<Rightarrow> nat" where
  "cnt a b n = n - (n div 2 AND a) - (n div 4 AND b)"

definition fold8 :: "nat \<Rightarrow> nat \<Rightarrow> nat" where
  "fold8 c a = (c + c div 8) AND a"

definition c6 :: "nat \<Rightarrow> nat" where
  "c6 e = e - (e div 2 AND 27) - (e div 4 AND 9)"

fun pc :: "nat \<Rightarrow> nat \<Rightarrow> nat" where
  "pc 0 n = 0"
| "pc (Suc k) n = n mod 2 + pc k (n div 2)"

section \<open>Words and powers of two\<close>

lemma unat_2p: "k < 32 \<Longrightarrow> unat (2 ^ k :: u32) = 2 ^ k"
proof -
  assume k: "k < 32"
  have "(2 ^ k :: u32) = word_of_nat (2 ^ k)" by simp
  then have "unat (2 ^ k :: u32) = (2 ^ k) mod 2 ^ 32"
    by (simp only: unat_of_nat) simp
  also have "\<dots> = 2 ^ k"
    using k by (intro mod_less power_strict_increasing) simp_all
  finally show ?thesis .
qed

lemma pow2_less_D: "(2::nat) ^ a < 2 ^ b \<Longrightarrow> a < b"
  by (rule ccontr) (simp add: not_less power_increasing leD)

lemma pow2_word_less: "k < j \<Longrightarrow> j < 32 \<Longrightarrow> (2 ^ k :: u32) < 2 ^ j"
  by (simp add: word_less_nat_alt unat_2p)

section \<open>\<open>NextPow2\<close>: bit smearing\<close>

lemma smear_stage:
  fixes y z :: u32
  assumes "\<And>i. bit z i = (\<exists>d<k. bit y (i + d))"
  shows "bit (z OR drop_bit k z) i = (\<exists>d<2 * k. bit y (i + d))"
proof -
  have "bit (z OR drop_bit k z) i = ((\<exists>d<k. bit y (i + d)) \<or> (\<exists>d<k. bit y (k + i + d)))"
    by (simp add: bit_or_iff bit_drop_bit_eq assms)
  also have "\<dots> = (\<exists>d<2 * k. bit y (i + d))"
  proof
    assume "(\<exists>d<k. bit y (i + d)) \<or> (\<exists>d<k. bit y (k + i + d))"
    then show "\<exists>d<2 * k. bit y (i + d)"
    proof
      assume "\<exists>d<k. bit y (i + d)"
      then obtain d where "d < k" "bit y (i + d)" by blast
      then show ?thesis by (intro exI[of _ d]) simp
    next
      assume "\<exists>d<k. bit y (k + i + d)"
      then obtain d where "d < k" "bit y (k + i + d)" by blast
      then show ?thesis by (intro exI[of _ "k + d"]) (simp add: ac_simps)
    qed
  next
    assume "\<exists>d<2 * k. bit y (i + d)"
    then obtain d where d: "d < 2 * k" "bit y (i + d)" by blast
    show "(\<exists>d<k. bit y (i + d)) \<or> (\<exists>d<k. bit y (k + i + d))"
    proof (cases "d < k")
      case True
      with d show ?thesis by blast
    next
      case False
      then have "d - k < k" "i + d = k + i + (d - k)" using d by simp_all
      with d(2) show ?thesis by metis
    qed
  qed
  finally show ?thesis .
qed

lemma bit_smear: "bit (smear y) i = (\<exists>d<32. bit y (i + d))"
proof -
  define x1 where "x1 = y OR drop_bit 1 y"
  define x2 where "x2 = x1 OR drop_bit 2 x1"
  define x3 where "x3 = x2 OR drop_bit 4 x2"
  define x4 where "x4 = x3 OR drop_bit 8 x3"
  define x5 where "x5 = x4 OR drop_bit 16 x4"
  have s0: "\<And>i. bit y i = (\<exists>d<1. bit y (i + d))" by simp
  have s1: "\<And>i. bit x1 i = (\<exists>d<2. bit y (i + d))"
    unfolding x1_def using smear_stage[of y 1 y, OF s0] by simp
  have s2: "\<And>i. bit x2 i = (\<exists>d<4. bit y (i + d))"
    unfolding x2_def using smear_stage[of x1 2 y, OF s1] by simp
  have s3: "\<And>i. bit x3 i = (\<exists>d<8. bit y (i + d))"
    unfolding x3_def using smear_stage[of x2 4 y, OF s2] by simp
  have s4: "\<And>i. bit x4 i = (\<exists>d<16. bit y (i + d))"
    unfolding x4_def using smear_stage[of x3 8 y, OF s3] by simp
  have s5: "\<And>i. bit x5 i = (\<exists>d<32. bit y (i + d))"
    unfolding x5_def using smear_stage[of x4 16 y, OF s4] by simp
  have "smear y = x5"
    by (simp add: smear_def Let_def x1_def x2_def x3_def x4_def x5_def)
  then show ?thesis using s5 by simp
qed

lemma bit_of_range:
  fixes y :: u32
  assumes "2 ^ h \<le> unat y" "unat y < 2 ^ Suc h"
  shows "bit y h" and "\<And>j. h < j \<Longrightarrow> \<not> bit y j"
proof -
  have "unat y div 2 ^ h = 1"
    using assms by (simp add: div_nat_eqI)
  then have "bit (unat y) h" by (simp add: bit_iff_odd)
  then show "bit y h" by (simp add: bit_unsigned_iff)
  fix j assume "h < j"
  then have "(2::nat) ^ Suc h \<le> 2 ^ j" by (intro power_increasing) simp_all
  with assms have "unat y div 2 ^ j = 0" by simp
  then have "\<not> bit (unat y) j" by (simp add: bit_iff_odd)
  then show "\<not> bit y j" by (simp add: bit_unsigned_iff)
qed

lemma smear_eq_mask:
  fixes y :: u32
  assumes "2 ^ h \<le> unat y" "unat y < 2 ^ Suc h"
  shows "smear y = mask (Suc h)"
proof (rule bit_word_eqI)
  fix i assume i: "i < LENGTH(32)"
  have h32: "h < 32"
  proof (rule ccontr)
    assume "\<not> h < 32"
    then have "(2::nat) ^ 32 \<le> 2 ^ h" by (intro power_increasing) simp_all
    moreover have "unat y < 2 ^ 32" using unsigned_less[of y] by simp
    ultimately show False using assms by simp
  qed
  show "bit (smear y) i = bit (mask (Suc h) :: u32) i"
  proof (cases "i \<le> h")
    case True
    then have "h - i < 32" "i + (h - i) = h" using h32 by simp_all
    then have "\<exists>d<32. bit y (i + d)" using bit_of_range(1)[OF assms] by metis
    then show ?thesis using True i by (simp add: bit_smear bit_mask_iff)
  next
    case False
    then have "\<And>d. \<not> bit y (i + d)" using bit_of_range(2)[OF assms] by simp
    then show ?thesis using False by (simp add: bit_smear bit_mask_iff)
  qed
qed

lemma smear_0: "smear 0 = 0" by (simp add: smear_def)

lemma NextPow2_smear: "NextPow2 x = smear (x - 1) + 1"
  by (simp add: NextPow2_def smear_def Let_def)

lemma NextPow2_pow2:
  assumes "1 \<le> unat x" "unat x \<le> 2 ^ 31"
  shows "\<exists>k\<le>31. NextPow2 x = 2 ^ k \<and> unat x \<le> 2 ^ k \<and> (\<forall>j. unat x \<le> 2 ^ j \<longrightarrow> k \<le> j)"
proof (cases "x = 1")
  case True
  then show ?thesis by (intro exI[of _ 0]) (simp add: NextPow2_smear smear_0)
next
  case False
  with assms have x2: "2 \<le> unat x" 
    by (metis Suc_1 Suc_leI le_neq_implies_less unat_1 word_unat_eq_iff)
  have xn0: "x \<noteq> 0" using assms by auto
  then have ux: "unat (x - 1) = unat x - 1" by (rule unat_minus_one)
  with x2 have "1 \<le> unat (x - 1)" by simp
  from ex_power_ivl1[OF _ this, of 2] obtain h
    where h: "2 ^ h \<le> unat (x - 1)" "unat (x - 1) < 2 ^ Suc h" by auto
  have "2 ^ h < unat x" using h(1) ux x2 by simp
  with assms(2) have "(2::nat) ^ h < 2 ^ 31" by simp
  then have h31: "h < 31" by (rule pow2_less_D)
  have np: "NextPow2 x = 2 ^ Suc h"
    using smear_eq_mask[OF h] by (simp only: NextPow2_smear inc_mask_eq_exp)
  have le: "unat x \<le> 2 ^ Suc h" using h(2) ux x2 by simp
  have "\<forall>j. unat x \<le> 2 ^ j \<longrightarrow> Suc h \<le> j"
  proof (intro allI impI)
    fix j assume "unat x \<le> 2 ^ j"
    with \<open>2 ^ h < unat x\<close> have "(2::nat) ^ h < 2 ^ j" by (rule less_le_trans)
    then have "h < j" by (rule pow2_less_D)
    then show "Suc h \<le> j" by simp
  qed
  with np le h31 show ?thesis by (intro exI[of _ "Suc h"]) simp
qed

section \<open>\<open>PrevPow2\<close>: the doubling loop\<close>

lemma loop_zero_never:
  assumes "PrevPow2_loop x n = Some y" shows "\<not> (x = 0 \<and> 0 < n)"
proof -
  have "(case (x, n) of (x, n) \<Rightarrow> \<lambda>y. \<not> (x = 0 \<and> 0 < n)) y"
  proof (rule PrevPow2_loop.raw_induct[where P = "\<lambda>x n y. \<not> (x = 0 \<and> 0 < n)"])
    fix f :: "u32 \<Rightarrow> u32 \<Rightarrow> u32 option" and x n xa
    assume IH: "\<And>n b y. f n b = Some y \<Longrightarrow> \<not> (n = 0 \<and> 0 < b)"
      and st: "(if x < n then f (push_bit 1 x) n else Some x) = Some xa"
    show "\<not> (x = 0 \<and> 0 < n)"
    proof
      assume h: "x = 0 \<and> 0 < n"
      with st have "f 0 n = Some xa" by simp
      from IH[OF this] h show False by simp
    qed
  next
    show "(case (x, n) of (x, xa) \<Rightarrow> PrevPow2_loop x xa) = Some y"
      using assms by simp
  qed
  then show ?thesis by simp
qed

lemma loop_zero_None: "0 < n \<Longrightarrow> PrevPow2_loop 0 n = None"
  using loop_zero_never[of 0 n] by (cases "PrevPow2_loop 0 n") auto

lemma loop_step: "x < n \<Longrightarrow> PrevPow2_loop x n = PrevPow2_loop (push_bit 1 x) n"
  by (subst PrevPow2_loop.simps) simp

lemma loop_stop: "\<not> x < n \<Longrightarrow> PrevPow2_loop x n = Some x"
  by (subst PrevPow2_loop.simps) simp

lemma pb: "push_bit 1 (2 ^ k :: u32) = 2 ^ Suc k"
  by (simp add: push_bit_eq_mult)

lemma loop_pow_less: "(2 ^ k :: u32) < n \<Longrightarrow> PrevPow2_loop (2 ^ k) n = PrevPow2_loop (2 ^ Suc k) n"
  using loop_step[of "2 ^ k" n] by (simp only: pb)


lemma loop_pow_None:
  assumes "2 ^ 31 < n" shows "k \<le> 31 \<Longrightarrow> PrevPow2_loop (2 ^ k) n = None"
proof (induction "31 - k" arbitrary: k)
  case 0
  then have k: "k = 31" by simp
  have "PrevPow2_loop (2 ^ 31) n = PrevPow2_loop (push_bit 1 (2 ^ 31)) n"
    using assms by (rule loop_step)
  also have "push_bit 1 (2 ^ 31 :: u32) = 0" by simp
  also have "PrevPow2_loop 0 n = None"
    using assms by (intro loop_zero_None) (simp add: word_greater_zero_iff, auto)
  finally show ?case using k by simp
next
  case (Suc d)
  then have k: "k < 31" "d = 31 - Suc k" "Suc k \<le> 31" by simp_all
  have "(2 ^ k :: u32) < 2 ^ 31"
    using k(1) by (intro pow2_word_less) simp_all
  then have "(2 ^ k :: u32) < n" using assms by simp
  then have "PrevPow2_loop (2 ^ k) n = PrevPow2_loop (2 ^ Suc k) n"
    by (rule loop_pow_less)
  also have "\<dots> = None" using Suc.hyps(1)[OF k(2) k(3)] .
  finally show ?case .
qed

lemma PrevPow2_diverges: "2 ^ 31 < n \<Longrightarrow> PrevPow2 n = None"
  using loop_pow_None[of n 0] by (auto simp: PrevPow2_def)

lemma loop_pow_Some:
  assumes "unat n \<le> 2 ^ k" "k \<le> 31"
  shows "j \<le> k \<Longrightarrow> (k = j \<or> 2 ^ (k - 1) < unat n) \<Longrightarrow> PrevPow2_loop (2 ^ j) n = Some (2 ^ k)"
proof (induction "k - j" arbitrary: j)
  case 0
  then have "j = k" by simp
  moreover have "\<not> (2 ^ k :: u32) < n"
    using assms by (simp add: word_less_nat_alt unat_2p)
  ultimately show ?case by (simp add: loop_stop)
next
  case (Suc d)
  then have j: "j < k" "d = k - Suc j" "Suc j \<le> k" by simp_all
  with Suc.prems have big: "2 ^ (k - 1) < unat n" by simp
  have "(2::nat) ^ j \<le> 2 ^ (k - 1)" using j by (intro power_increasing) simp_all
  from this big have "2 ^ j < unat n" by (rule le_less_trans)
  moreover have "j < 32" using j assms by simp
  ultimately have "(2 ^ j :: u32) < n"
    by (simp add: word_less_nat_alt unat_2p)
  then have "PrevPow2_loop (2 ^ j) n = PrevPow2_loop (2 ^ Suc j) n"
    by (rule loop_pow_less)
  also have "\<dots> = Some (2 ^ k)"
    using Suc.hyps(1)[OF j(2) j(3)] big by simp
  finally show ?case .
qed

lemma PrevPow2_returns:
  assumes "unat n \<le> 2 ^ 31"
  shows "\<exists>y. PrevPow2 n = Some y"
proof (cases "unat n \<le> 1")
  case True
  then have "\<not> (1::u32) < n" by (simp add: word_less_nat_alt)
  then show ?thesis by (simp add: PrevPow2_def loop_stop)
next
  case False
  then have "1 \<le> unat n - 1" by simp
  from ex_power_ivl1[OF _ this, of 2] obtain h
    where h: "2 ^ h \<le> unat n - 1" "unat n - 1 < 2 ^ Suc h" by auto
  have lo: "2 ^ h < unat n" and hi: "unat n \<le> 2 ^ Suc h" using h False by simp_all
  from lo assms have "(2::nat) ^ h < 2 ^ 31" by (rule less_le_trans)
  then have "h < 31" by (rule pow2_less_D)
  then have "Suc h \<le> 31" by simp
  from loop_pow_Some[OF hi this, of 0] lo
  have "PrevPow2_loop 1 n = Some (2 ^ Suc h)" by simp
  then show ?thesis by (simp add: PrevPow2_def)
qed

lemma PrevPow2_strictly_below:
  assumes "2 ^ k < unat n" "unat n \<le> 2 ^ Suc k" "k < 30"
  shows "PrevPow2 n = Some (2 ^ k)"
proof -
  have k: "Suc k \<le> 31" using assms(3) by simp
  from loop_pow_Some[OF assms(2) k, of 0] assms(1)
  have l: "PrevPow2_loop 1 n = Some (2 ^ Suc k)" by simp
  have "signed_drop_bit 1 (2 ^ Suc k :: u32) = 2 ^ k"
  proof (rule bit_word_eqI)
    fix i assume "i < LENGTH(32)"
    then show "bit (signed_drop_bit 1 (2 ^ Suc k :: u32)) i = bit (2 ^ k :: u32) i"
      using assms(3) by (auto simp: bit_signed_drop_bit_iff bit_exp_iff simp del: power_Suc)
  qed
  moreover have "n \<noteq> 0" using assms(1) by auto
  ultimately show ?thesis by (simp add: PrevPow2_def l)
qed

section \<open>\<open>BitCount\<close>: the parallel sum by groups of six bits\<close>

lemma nat_and_le1: "(x AND y :: nat) \<le> x"
proof -
  have "int (x AND y) = int x AND int y" by (simp add: of_nat_and_eq)
  also have "\<dots> \<le> int x" by (rule AND_upper1) simp
  finally show ?thesis by simp
qed

lemma c6_all: "\<forall>e\<in>set [0..<64]. c6 e \<le> 27 \<and> c6 e mod 8 \<le> 3 \<and> c6 e div 8 \<le> 3 \<and> (c6 e + c6 e div 8) mod 8 = pc 6 e"
  by code_simp

lemma c6_top: "\<forall>e\<in>set [0..<4]. c6 e \<le> 2"
  by code_simp

lemma and_split:
  fixes a b c d :: nat
  assumes "b < 2 ^ j" "d < 2 ^ j"
  shows "(2 ^ j * a + b) AND (2 ^ j * c + d) = 2 ^ j * (a AND c) + (b AND d)"
proof -
  let ?X = "2 ^ j * a + b" and ?Y = "2 ^ j * c + d"
  have "take_bit j (?X AND ?Y) = take_bit j ?X AND take_bit j ?Y" by simp
  also have "take_bit j ?X = b" using assms by (simp add: take_bit_eq_mod)
  also have "take_bit j ?Y = d" using assms by (simp add: take_bit_eq_mod)
  finally have lo: "(?X AND ?Y) mod 2 ^ j = b AND d" by (simp add: take_bit_eq_mod)
  have "drop_bit j (?X AND ?Y) = drop_bit j ?X AND drop_bit j ?Y" by simp
  also have "drop_bit j ?X = a" using assms by (simp add: drop_bit_eq_div)
  also have "drop_bit j ?Y = c" using assms by (simp add: drop_bit_eq_div)
  finally have hi: "(?X AND ?Y) div 2 ^ j = a AND c" by (simp add: drop_bit_eq_div)
  have "?X AND ?Y = 2 ^ j * ((?X AND ?Y) div 2 ^ j) + (?X AND ?Y) mod 2 ^ j" by simp
  then show ?thesis by (simp only: lo hi)
qed

lemmas and_split64 = and_split[where j = 6, simplified]
lemmas and_split32 = and_split[where j = 5, simplified]
lemmas and_split16 = and_split[where j = 4, simplified]
lemmas and_split8 = and_split[where j = 3, simplified]

lemma c6_bounds:
  assumes "e < 64"
  shows "c6 e \<le> 27" "c6 e mod 8 \<le> 3" "c6 e div 8 \<le> 3" "(c6 e + c6 e div 8) mod 8 = pc 6 e"
proof -
  have "e \<in> set [0..<64]" using assms by simp
  with c6_all have "c6 e \<le> 27 \<and> c6 e mod 8 \<le> 3 \<and> c6 e div 8 \<le> 3 \<and> (c6 e + c6 e div 8) mod 8 = pc 6 e"
    by blast
  then show "c6 e \<le> 27" "c6 e mod 8 \<le> 3" "c6 e div 8 \<le> 3" "(c6 e + c6 e div 8) mod 8 = pc 6 e"
    by blast+
qed

lemma div2_64: "((64::nat) * m + e) div 2 = 32 * m + e div 2"
proof -
  have "(64::nat) * m + e = e + (32 * m) * 2" by simp
  then have "(64 * m + e) div 2 = (e + (32 * m) * 2) div 2" by (simp only:)
  also have "\<dots> = 32 * m + e div 2" by (subst div_mult_self1) simp_all
  finally show ?thesis .
qed
lemma div4_64: "((64::nat) * m + e) div 4 = 16 * m + e div 4"
proof -
  have "(64::nat) * m + e = e + (16 * m) * 4" by simp
  then have "(64 * m + e) div 4 = (e + (16 * m) * 4) div 4" by (simp only:)
  also have "\<dots> = 16 * m + e div 4" by (subst div_mult_self1) simp_all
  finally show ?thesis .
qed
lemma div8_64: "((64::nat) * m + e) div 8 = 8 * m + e div 8"
proof -
  have "(64::nat) * m + e = e + (8 * m) * 8" by simp
  then have "(64 * m + e) div 8 = (e + (8 * m) * 8) div 8" by (simp only:)
  also have "\<dots> = 8 * m + e div 8" by (subst div_mult_self1) simp_all
  finally show ?thesis .
qed
lemma split32: "(32::nat) * m = 64 * (m div 2) + 32 * (m mod 2)"
  using div_mult_mod_eq[of m 2] by linarith
lemma split16: "(16::nat) * m = 64 * (m div 4) + 16 * (m mod 4)"
  using div_mult_mod_eq[of m 4] by linarith
lemma split8: "(8::nat) * m = 64 * (m div 8) + 8 * (m mod 8)"
  using div_mult_mod_eq[of m 8] by linarith
lemma low2_lt: "e < 64 \<Longrightarrow> (32::nat) * (m mod 2) + e div 2 < 64"
proof -
  assume "e < 64"
  then have "e div 2 < 32" by simp
  moreover have "m mod 2 \<le> 1" by simp
  ultimately show ?thesis by linarith
qed
lemma low4_lt: "e < 64 \<Longrightarrow> (16::nat) * (m mod 4) + e div 4 < 64"
proof -
  assume "e < 64"
  then have "e div 4 < 16" by simp
  moreover have "m mod 4 \<le> 3" by simp
  ultimately show ?thesis by linarith
qed
lemma half_quarter_le: "A \<le> m div 2 \<Longrightarrow> B \<le> m div 4 \<Longrightarrow> A + B \<le> (m::nat)"
proof -
  assume h: "A \<le> m div 2" "B \<le> m div 4"
  have "m div 4 \<le> m div 2 div 2" by (simp add: div_mult2_eq[symmetric])
  also have "\<dots> \<le> m div 2 - m div 2 div 2 " by linarith
  finally have "m div 2 + m div 4 \<le> m" by linarith
  with h show ?thesis by linarith
qed
lemma sub_groups: "A + B \<le> m \<Longrightarrow> a + b \<le> e \<Longrightarrow> (64::nat) * m + e - (64 * A + a) - (64 * B + b) = 64 * (m - A - B) + (e - a - b)"
  by (simp add: algebra_simps)

lemma half_and_27:
  assumes "e < 64"
  shows "(32 * b + e div 2) AND 27 = e div 2 AND (27::nat)"
proof -
  have "e div 2 < 32" using assms by simp
  from and_split32[OF this, of 27 b 0] show ?thesis by simp
qed

lemma quarter_and_9:
  assumes "e < 64"
  shows "(16 * b + e div 4) AND 9 = e div 4 AND (9::nat)"
proof -
  have "e div 4 < 16" using assms by simp
  from and_split16[OF this, of 9 b 0] show ?thesis by simp
qed

lemma cnt_step:
  assumes e: "e < 64"
  shows "cnt (64 * a + 27) (64 * b + 9) (64 * m + e) = 64 * cnt a b m + c6 e"
proof -
  have d2: "(64 * m + e) div 2 = 64 * (m div 2) + (32 * (m mod 2) + e div 2)"
    by (simp only: div2_64 split32[of m] add.assoc)
  have d4: "(64 * m + e) div 4 = 64 * (m div 4) + (16 * (m mod 4) + e div 4)"
    by (simp only: div4_64 split16[of m] add.assoc)
  have A: "(64 * m + e) div 2 AND (64 * a + 27) = 64 * (m div 2 AND a) + (e div 2 AND 27)"
    unfolding d2 using and_split64[OF low2_lt[OF e, of m], of 27 "m div 2" a]
    by (simp only: half_and_27[OF e])
  have B: "(64 * m + e) div 4 AND (64 * b + 9) = 64 * (m div 4 AND b) + (e div 4 AND 9)"
    unfolding d4 using and_split64[OF low4_lt[OF e, of m], of 9 "m div 4" b]
    by (simp only: quarter_and_9[OF e])
  have hm: "(m div 2 AND a) + (m div 4 AND b) \<le> m"
    by (rule half_quarter_le) (rule nat_and_le1)+
  have he: "(e div 2 AND 27) + (e div 4 AND 9) \<le> e"
    by (rule half_quarter_le) (rule nat_and_le1)+
  show ?thesis
    unfolding cnt_def c6_def A B by (rule sub_groups[OF hm he])
qed

lemma and_7_mod8: "(x::nat) AND 7 = x mod 8"
proof -
  have "take_bit 3 x = x AND mask 3" by (rule take_bit_eq_mask)
  then show ?thesis by (simp add: take_bit_eq_mod mask_numeral)
qed

lemma fold8_step:
  assumes "C mod 8 \<le> 3" "c \<le> 27" "c div 8 \<le> 3"
  shows "fold8 (64 * C + c) (64 * a + 7) = 64 * fold8 C a + (c + c div 8) mod 8"
proof -
  let ?L = "8 * (C mod 8) + (c + c div 8)"
  have s: "(64 * C + c) + (64 * C + c) div 8 = 64 * (C + C div 8) + ?L"
  proof -
    have "\<And>p q r d. (p::nat) = 64 * q + r \<Longrightarrow> 64 * C + c + (p + d) = 64 * (C + q) + (r + (c + d))"
      by simp
    from this[OF split8[of C], of "c div 8"] show ?thesis by (simp only: div8_64)
  qed
  have L: "?L < 64" using assms by linarith
  have "fold8 (64 * C + c) (64 * a + 7) = 64 * ((C + C div 8) AND a) + (?L AND 7)"
    unfolding fold8_def s using and_split64[OF L, of 7 "C + C div 8" a] by simp
  also have "?L AND 7 = (c + c div 8) mod 8"
    unfolding and_7_mod8 by simp
  finally show ?thesis by (simp add: fold8_def)
qed


lemma pc_mod: "pc a (n mod 2 ^ a) = pc a n"
proof (induction a arbitrary: n)
  case 0
  show ?case by simp
next
  case (Suc a)
  have m: "n mod 2 ^ Suc a = 2 * (n div 2 mod 2 ^ a) + n mod 2"
    using mod_mult2_eq[of n 2 "2 ^ a"] by simp
  have "(n mod 2 ^ Suc a) mod 2 = n mod 2" unfolding m by simp
  moreover have "(n mod 2 ^ Suc a) div 2 = n div 2 mod 2 ^ a" unfolding m by simp
  ultimately show ?case using Suc.IH[of "n div 2"] by simp
qed

lemma pc_add: "pc (a + b) n = pc a n + pc b (n div 2 ^ a)"
proof (induction a arbitrary: n)
  case 0
  show ?case by simp
next
  case (Suc a)
  have "n div 2 div 2 ^ a = n div 2 ^ Suc a" by (simp add: div_mult2_eq)
  with Suc.IH[of "n div 2"] show ?case by simp
qed

lemma pc_zero: "pc k 0 = 0"
  by (induction k) simp_all

lemma pc_le: "pc k n \<le> k"
proof (induction k arbitrary: n)
  case 0
  show ?case by simp
next
  case (Suc k)
  have "n mod 2 \<le> 1" by simp
  with Suc[of "n div 2"] show ?case by simp
qed

lemma pc_group: "pc (6 * Suc k) n = pc 6 (n mod 64) + pc (6 * k) (n div 64)"
proof -
  have "pc (6 * Suc k) n = pc (6 + 6 * k) n" by simp
  also have "\<dots> = pc 6 n + pc (6 * k) (n div 2 ^ 6)" by (rule pc_add)
  also have "pc 6 n = pc 6 (n mod 2 ^ 6)" by (rule pc_mod[symmetric])
  finally show ?thesis by simp
qed

lemma mod63_step: "(64 * F + p) mod 63 = (F mod 63 + p) mod (63::nat)"
proof -
  have "64 * F + p = (F + p) + F * 63" by simp
  then have "(64 * F + p) mod 63 = (F + p) mod 63" by (simp only: mod_mult_self1)
  then show ?thesis by (simp add: mod_add_left_eq)
qed

lemma hakmem_groups:
  "n < 64 ^ k \<Longrightarrow>
     cnt (m3 k) (m1 k) n mod 8 \<le> 3 \<and>
     fold8 (cnt (m3 k) (m1 k) n) (m7 k) mod 63 = pc (6 * k) n mod 63"
proof (induction k arbitrary: n)
  case 0
  then show ?case by (simp add: cnt_def fold8_def)
next
  case (Suc k)
  define m e where "m = n div 64" and "e = n mod 64"
  have n: "n = 64 * m + e" and e: "e < 64" by (simp_all add: m_def e_def)
  have m: "m < 64 ^ k" using Suc.prems by (simp add: m_def less_mult_imp_div_less mult.commute)
  define C where "C = cnt (m3 k) (m1 k) m"
  have c: "cnt (m3 (Suc k)) (m1 (Suc k)) n = 64 * C + c6 e"
    unfolding n C_def using cnt_step[OF e] by simp
  have C8: "C mod 8 \<le> 3" and F: "fold8 C (m7 k) mod 63 = pc (6 * k) m mod 63"
    using Suc.IH[OF m] by (simp_all add: C_def)
  have "(64 * C + c6 e) mod 8 = c6 e mod 8"
  proof -
    have "64 * C + c6 e = c6 e + (8 * C) * 8" by simp
    then show ?thesis by (simp only: mod_mult_self1)
  qed
  then have one: "cnt (m3 (Suc k)) (m1 (Suc k)) n mod 8 \<le> 3"
    using c6_bounds(2)[OF e] c by simp
  have "fold8 (64 * C + c6 e) (m7 (Suc k)) = 64 * fold8 C (m7 k) + pc 6 e"
    using fold8_step[OF C8 c6_bounds(1)[OF e] c6_bounds(3)[OF e], of "m7 k"] c6_bounds(4)[OF e]
    by simp
  then have "fold8 (cnt (m3 (Suc k)) (m1 (Suc k)) n) (m7 (Suc k)) mod 63
        = (fold8 C (m7 k) mod 63 + pc 6 e) mod 63"
    by (simp only: c mod63_step)
  also have "\<dots> = (pc (6 * k) m mod 63 + pc 6 e) mod 63" by (simp only: F)
  also have "\<dots> = (pc 6 e + pc (6 * k) m) mod 63" by (simp only: mod_add_left_eq) (simp only: add.commute)
  also have "\<dots> = pc (6 * Suc k) n mod 63" by (simp only: pc_group m_def e_def)
  finally show ?case using one by simp
qed


lemma and_trunc32:
  fixes x M :: nat
  assumes "x < 2 ^ 32"
  shows "x AND M = x AND (M mod 2 ^ 32)"
proof -
  have le: "x AND M < 2 ^ 32" using nat_and_le1[of x M] assms by simp
  have "x AND M = take_bit 32 (x AND M)" using le by (rule take_bit_nat_eq_self[symmetric])
  also have "\<dots> = take_bit 32 x AND take_bit 32 M" by (rule take_bit_and)
  also have "take_bit 32 x = x" using assms by (rule take_bit_nat_eq_self)
  finally show ?thesis by (simp only: take_bit_eq_mod)
qed

lemma five: "(5::nat) = Suc (Suc (Suc (Suc (Suc 0))))" by simp

lemma six: "(6::nat) = Suc (Suc (Suc (Suc (Suc (Suc 0)))))" by simp

lemma masks6: "m3 6 mod 2 ^ 32 = 0xDB6DB6DB" "m1 6 mod 2 ^ 32 = 0x49249249" "m7 6 mod 2 ^ 32 = 0xC71C71C7"
  by (simp_all only: six m3.simps m1.simps m7.simps) simp_all

lemma cnt_bound:
  "n < 4 * 64 ^ k \<Longrightarrow> cnt (m3 (Suc k)) (m1 (Suc k)) n \<le> 2 * 64 ^ k + m3 k"
proof (induction k arbitrary: n)
  case 0
  then have "n \<in> set [0..<4]" by simp
  with c6_top have "c6 n \<le> 2" by blast
  then show ?case by (simp add: cnt_def c6_def)
next
  case (Suc k)
  define m e where "m = n div 64" and "e = n mod 64"
  have n: "n = 64 * m + e" and e: "e < 64" by (simp_all add: m_def e_def)
  have m: "m < 4 * 64 ^ k" using Suc.prems by (simp add: m_def less_mult_imp_div_less mult.commute)
  have "cnt (m3 (Suc (Suc k))) (m1 (Suc (Suc k))) n = 64 * cnt (m3 (Suc k)) (m1 (Suc k)) m + c6 e"
    unfolding n using cnt_step[OF e, of "m3 (Suc k)" "m1 (Suc k)" m] by simp
  also have "\<dots> \<le> 64 * (2 * 64 ^ k + m3 k) + 27"
    using Suc.IH[OF m] c6_bounds(1)[OF e] by (intro add_mono mult_le_mono2)
  finally show ?case by simp
qed

lemma hakmem_nat:
  assumes n: "n < 2 ^ 32"
  defines "c \<equiv> n - (n div 2 AND 0xDB6DB6DB) - (n div 4 AND 0x49249249)"
  shows "c + c div 8 < 2 ^ 32" and "((c + c div 8) AND 0xC71C71C7) mod 63 = pc 32 n"
proof -
  have n2: "n div 2 < 2 ^ 32" and n4: "n div 4 < 2 ^ 32" using n by simp_all
  have c: "c = cnt (m3 6) (m1 6) n"
    unfolding c_def cnt_def and_trunc32[OF n2, of "m3 6"] and_trunc32[OF n4, of "m1 6"] masks6 ..
  have s6: "(6::nat) = Suc 5" by simp
  have "n < 4 * 64 ^ 5" using n by simp
  from cnt_bound[OF this] have "c \<le> 2 * 64 ^ 5 + m3 5"
    unfolding c s6 .
  also have "m3 5 = 460175067"
    by (simp only: five m3.simps) simp
  finally have cb: "c \<le> 2607658715" by simp
  show "c + c div 8 < 2 ^ 32" using cb by simp
  then have "(c + c div 8) AND 0xC71C71C7 = fold8 c (m7 6)"
    unfolding fold8_def using and_trunc32[of "c + c div 8" "m7 6"] by (simp only: masks6)
  moreover have "n < 64 ^ 6" using n by simp
  from hakmem_groups[OF this] have "fold8 c (m7 6) mod 63 = pc (6 * 6) n mod 63"
    unfolding c by simp
  moreover have "pc (6 * 6) n = pc 32 n"
  proof -
    have "pc (6 * 6) n = pc (32 + 4) n" by simp
    also have "\<dots> = pc 32 n + pc 4 (n div 2 ^ 32)" by (rule pc_add)
    also have "n div 2 ^ 32 = 0" using n by simp
    finally show ?thesis by (simp only: pc_zero)
  qed
  moreover have "pc 32 n mod 63 = pc 32 n"
    using pc_le[of 32 n] by simp
  ultimately show "((c + c div 8) AND 0xC71C71C7) mod 63 = pc 32 n" by simp
qed

lemma pc_filter: "pc k n = length (filter (bit n) [0..<k])"
proof (induction k arbitrary: n)
  case 0
  show ?case by simp
next
  case (Suc k)
  have "[0..<Suc k] = 0 # map Suc [0..<k]"
    by (simp only: map_Suc_upt) (simp add: upt_conv_Cons)
  then have "length (filter (bit n) [0..<Suc k])
      = (if odd n then 1 else 0) + length (filter (bit (n div 2)) [0..<k])"
    by (simp add: filter_map bit_0 bit_Suc comp_def)
  also have "(if odd n then 1 else 0) = n mod 2" by (simp add: odd_iff_mod_2_eq_one)
  finally show ?case using Suc.IH[of "n div 2"] by simp
qed

lemma popcount_pc: "popcount u = pc 32 (unat u)"
proof -
  have "filter (bit u) [0..<32] = filter (bit (unat u)) [0..<32]"
    by (rule filter_cong) (simp_all add: bit_unsigned_iff)
  then show ?thesis by (simp add: popcount_def pc_filter)
qed

lemma BitCount_pc: "BitCount u = int (pc 32 (unat u))"
proof -
  define n where "n = unat u"
  have n: "n < 2 ^ 32" unfolding n_def using unsigned_less[of u] by simp
  define A B :: u32 where "A = drop_bit 1 u AND 0xDB6DB6DB" and "B = drop_bit 2 u AND 0x49249249"
  have uA: "unat A = n div 2 AND 0xDB6DB6DB"
    by (simp add: A_def n_def unsigned_and_eq unat_drop_bit_eq drop_bit_eq_div unat_div)
  have uB: "unat B = n div 4 AND 0x49249249"
    by (simp add: B_def n_def unsigned_and_eq unat_drop_bit_eq drop_bit_eq_div unat_div)
  have AB: "unat A + unat B \<le> n"
    unfolding uA uB by (rule half_quarter_le) (rule nat_and_le1)+
  define c where "c = n - unat A - unat B"
  have "A \<le> u" using AB by (simp add: word_le_nat_alt n_def)
  then have uAs: "unat (u - A) = n - unat A" by (simp add: unat_sub n_def)
  have "B \<le> u - A" using AB by (simp add: word_le_nat_alt uAs)
  then have uc: "unat (u - A - B) = c" by (simp add: unat_sub uAs c_def)
  have c: "c = n - (n div 2 AND 0xDB6DB6DB) - (n div 4 AND 0x49249249)"
    by (simp add: c_def uA uB)
  note H = hakmem_nat[OF n, folded c]
  define w where "w = u - A - B"
  have "unat (w + drop_bit 3 w) = c + c div 8"
  proof -
    have "unat (drop_bit 3 w) = c div 8" by (simp add: w_def uc unat_drop_bit_eq drop_bit_eq_div unat_div)
    moreover have "unat w = c" by (simp add: w_def uc)
    ultimately show ?thesis using H(1) by (simp add: unat_word_ariths)
  qed
  then have "unat (((w + drop_bit 3 w) AND 0xC71C71C7) mod 63) = pc 32 n"
    using H(2) by (simp add: unat_mod unsigned_and_eq)
  moreover define r where "r = ((w + drop_bit 3 w) AND 0xC71C71C7) mod 63"
  ultimately have r: "unat r = pc 32 n" by simp
  have "sint r = int (unat r)"
  proof -
    have "unat r \<le> 32" using pc_le[of 32 n] by (simp only: r)
    moreover have ur: "uint r = int (unat r)" by (rule uint_nat)
    ultimately have "uint r \<le> 32" by linarith
    then have "uint r < 2 ^ 31" by simp
    moreover have "- (2 ^ 31) \<le> uint r"
      by (rule order_trans[of _ 0]) simp_all
    ultimately have "signed_take_bit 31 (uint r) = uint r"
      by (intro signed_take_bit_int_eq_self)
    then have "sint r = uint r"
      by (simp only: sint_uint) simp
    then show ?thesis by (simp only: ur)
  qed
  moreover have "BitCount u = sint r"
    by (simp add: BitCount_def Let_def r_def w_def A_def B_def)
  ultimately show ?thesis by (simp only: r n_def)
qed

lemma BitCount_popcount: "BitCount u = int (popcount u)"
  by (simp add: BitCount_pc popcount_pc)

section \<open>\<open>HighestBitSet\<close>: the two bodies\<close>

lemma clz_from_above:
  assumes "bit u h" and "\<And>j. h < j \<Longrightarrow> \<not> bit u j"
  shows "clz_from (Suc h + d) u = d"
proof (induction d)
  case 0
  show ?case using assms(1) by simp
next
  case (Suc d)
  have "\<not> bit u (Suc h + d)" by (rule assms(2)) simp
  then show ?case using Suc.IH by simp
qed

lemma range_below_32:
  fixes y :: u32
  assumes "2 ^ h \<le> unat y"
  shows "h < 32"
proof (rule ccontr)
  assume "\<not> h < 32"
  then have "(2::nat) ^ 32 \<le> 2 ^ h" by (intro power_increasing) simp_all
  moreover have "unat y < 2 ^ 32" using unsigned_less[of y] by simp
  ultimately show False using assms by simp
qed

lemma HighestBitSet_gnu_index:
  assumes "2 ^ h \<le> unat u" "unat u < 2 ^ Suc h"
  shows "HighestBitSet_gnu u = Some (int h)"
proof -
  have h: "h < 32" using assms(1) by (rule range_below_32)
  have "u \<noteq> 0" using assms(1) by auto
  moreover have "clz_from (Suc h + (31 - h)) u = 31 - h"
    using bit_of_range[OF assms] by (intro clz_from_above) simp_all
  moreover have "Suc h + (31 - h) = 32" using h by simp
  ultimately show ?thesis
    using h by (simp add: HighestBitSet_gnu_def builtin_clz_def)
qed

lemma length_filter_less: "length (filter (\<lambda>i. i < m) [0..<n]) = min m n"
  by (induction n) auto

lemma popcount_mask: "k \<le> 32 \<Longrightarrow> popcount (mask k) = k"
proof -
  assume k: "k \<le> 32"
  have "filter (bit (mask k :: u32)) [0..<32] = filter (\<lambda>i. i < k) [0..<32]"
    by (rule filter_cong) (simp_all add: bit_mask_iff)
  then show ?thesis using k by (simp add: popcount_def length_filter_less)
qed

lemma HighestBitSet_msc_smear: "HighestBitSet_msc u = 31 - BitCount (smear u)"
  by (simp add: HighestBitSet_msc_def smear_def Let_def)

lemma HighestBitSet_msc_index:
  assumes "2 ^ h \<le> unat u" "unat u < 2 ^ Suc h"
  shows "HighestBitSet_msc u = 30 - int h"
proof -
  have h: "Suc h \<le> 32" using range_below_32[OF assms(1)] by simp
  have "BitCount (smear u) = int (Suc h)"
    by (simp only: smear_eq_mask[OF assms] BitCount_popcount popcount_mask[OF h])
  then show ?thesis by (simp add: HighestBitSet_msc_smear)
qed

section \<open>The claims on the integer functions\<close>

text \<open>
  C8. For every 32-bit unsigned \<open>x\<close> with \<open>1 \<le> x \<le> 2 ^ 31\<close>, \<open>NextPow2 x\<close> is
  the smallest power of two greater than or equal to \<open>x\<close>; \<open>NextPow2 0\<close> wraps round
  to 0; on the inputs 1, 2, 3, 5, 16, 17, 1023, 1024 it returns 1, 2, 4, 8, 16, 32, 1024,
  1024.
\<close>

theorem NextPow2_smallest_power_of_two:
  "(1 \<le> unat x \<and> unat x \<le> 2 ^ 31 \<longrightarrow>
      (\<exists>k\<le>31. NextPow2 x = 2 ^ k \<and> unat x \<le> 2 ^ k \<and> (\<forall>j. unat x \<le> 2 ^ j \<longrightarrow> k \<le> j)))
   \<and> NextPow2 0 = 0
   \<and> map NextPow2 [1, 2, 3, 5, 16, 17, 1023, 1024] = [1, 2, 4, 8, 16, 32, 1024, 1024]"
proof (intro conjI impI)
  assume "1 \<le> unat x \<and> unat x \<le> 2 ^ 31"
  then show "\<exists>k\<le>31. NextPow2 x = 2 ^ k \<and> unat x \<le> 2 ^ k \<and> (\<forall>j. unat x \<le> 2 ^ j \<longrightarrow> k \<le> j)"
    using NextPow2_pow2[of x] by blast
next
  show "NextPow2 0 = 0" by (simp add: NextPow2_def)
next
  show "map NextPow2 [1, 2, 3, 5, 16, 17, 1023, 1024] = [1, 2, 4, 8, 16, 32, 1024, 1024]"
    by (simp add: NextPow2_def)
qed

theorem NextPow2_smallest_power_of_two_witness:
  "1 \<le> unat (17 :: u32) \<and> unat (17 :: u32) \<le> 2 ^ 31 \<and> NextPow2 17 = 2 ^ 5"
  using NextPow2_smallest_power_of_two [of 17] by (simp add: NextPow2_def)

text \<open>
  C9. For every 32-bit unsigned \<open>u\<close>, \<open>BitCount u\<close> is the number of set bits of
  \<open>u\<close>; in particular \<open>BitCount 0 = 0\<close>, \<open>BitCount 0xFFFFFFFF = 32\<close> and
  \<open>BitCount 1 = 1\<close>.
\<close>

theorem BitCount_exact:
  "BitCount u = int (popcount u)
   \<and> BitCount 0 = 0 \<and> BitCount 0xFFFFFFFF = 32 \<and> BitCount 1 = 1"
proof (intro conjI)
  show "BitCount u = int (popcount u)" by (rule BitCount_popcount)
  show "BitCount 0 = 0" by (simp add: BitCount_def)
  show "BitCount 0xFFFFFFFF = 32" by (simp add: BitCount_def)
  show "BitCount 1 = 1" by (simp add: BitCount_def)
qed

text \<open>
  C2. The claim is that \<open>PrevPow2 x\<close> is the largest power of two less than or equal
  to \<open>x\<close>, with the values 0, 1, 2, 2, 4, 16, 16, 512, 1024 on the inputs 0, 1, 2, 3, 5,
  16, 17, 1023, 1024. The loop stops at the first power of two that is not below \<open>n\<close>
  and the result is half of it: the function returns 0 for 1 and the largest power of two
  strictly below \<open>n\<close> from 2 on (lemma \<open>PrevPow2_strictly_below\<close>), so it differs
  from the claim at 1 and at every power of two.
\<close>

theorem PrevPow2_samples:
  "map PrevPow2 [0, 1, 2, 3, 5, 16, 17, 1023, 1024]
     = map Some [0, 0, 1, 2, 4, 8, 16, 512, 512]"
  by code_simp

text \<open>
  C7. The claim is that every call of \<open>PrevPow2\<close> returns, after at most 32 rounds of
  the loop, the loop variable wrapping modulo \<open>2 ^ 32\<close>. Above \<open>2 ^ 31\<close> the variable
  wraps to 0 after 32 doublings and stays there, below \<open>n\<close> for ever (lemma
  \<open>PrevPow2_diverges\<close>); up to \<open>2 ^ 31\<close> the call does return (lemma
  \<open>PrevPow2_returns\<close>).
\<close>

theorem PrevPow2_never_returns:
  "PrevPow2 0x80000001 = None"
  by (rule PrevPow2_diverges) simp

text \<open>
  C5. The claim is that both bodies of \<open>HighestBitSet\<close> return the index of the most
  significant set bit of \<open>u \<noteq> 0\<close>. The intrinsic body does; the smear-and-count body
  returns 31 minus the number of bits up to that index, which is 30 minus the index.
\<close>

theorem HighestBitSet_bodies_differ:
  "HighestBitSet_msc 1 = 30 \<and> HighestBitSet_msc 0x80000000 = - 1
   \<and> HighestBitSet_gnu 1 = Some 0 \<and> HighestBitSet_gnu 0x80000000 = Some 31"
  by code_simp

section \<open>Binary32: magnitudes and their values\<close>

lemma f_mag_range: "0 \<le> f_mag w" "f_mag w < 2 ^ 31"
proof -
  show "0 \<le> f_mag w" by (simp add: f_mag_def)
  have "f_mag w = take_bit 31 (uint w)" by (simp add: f_mag_def unsigned_take_bit_eq)
  then show "f_mag w < 2 ^ 31" by (simp only: take_bit_int_less_exp)
qed

lemma scaled_low: "0 \<le> m \<Longrightarrow> m < 2 ^ 23 \<Longrightarrow> scaled m = m"
  by (simp add: scaled_def)

lemma scaled_high:
  assumes "2 ^ 23 \<le> m"
  shows "scaled m = (2 ^ 23 + m mod 2 ^ 23) * 2 ^ nat (m div 2 ^ 23 - 1)" and "1 \<le> m div 2 ^ 23"
proof -
  have "(2::int) ^ 23 div 2 ^ 23 \<le> m div 2 ^ 23" using assms by (intro zdiv_mono1) simp_all
  then show "1 \<le> m div 2 ^ 23" by simp
  then show "scaled m = (2 ^ 23 + m mod 2 ^ 23) * 2 ^ nat (m div 2 ^ 23 - 1)"
    by (simp add: scaled_def)
qed

lemma scaled_form:
  assumes "0 \<le> m"
  shows "\<exists>n j. scaled m = n * 2 ^ j \<and> 0 \<le> n \<and> n < 2 ^ 24 \<and> (j = 0 \<or> 2 ^ 23 \<le> n)"
proof (cases "m < 2 ^ 23")
  case True
  then have "scaled m = m * 2 ^ 0" using assms by (simp add: scaled_low)
  moreover have "m < 2 ^ 24" using True by simp
  ultimately show ?thesis using assms by blast
next
  case False
  then have m: "2 ^ 23 \<le> m" by simp
  define n where "n = 2 ^ 23 + m mod 2 ^ 23"
  have "0 \<le> m mod 2 ^ 23" "m mod 2 ^ 23 < 2 ^ 23" by simp_all
  then have "0 \<le> n" "n < 2 ^ 24" "2 ^ 23 \<le> n" by (simp_all add: n_def)
  moreover have "scaled m = n * 2 ^ nat (m div 2 ^ 23 - 1)"
    using scaled_high(1)[OF m] by (simp add: n_def)
  ultimately show ?thesis by blast
qed

lemma scaled_nonneg: "0 \<le> m \<Longrightarrow> 0 \<le> scaled m"
  using scaled_form[of m] by auto

lemma scaled_pos:
  assumes "0 < m" shows "0 < scaled m"
proof (cases "m < 2 ^ 23")
  case True
  then show ?thesis using assms by (simp add: scaled_low)
next
  case False
  then have m: "2 ^ 23 \<le> m" by simp
  have "0 \<le> m mod 2 ^ 23" by simp
  then have "(0::int) < 2 ^ 23 + m mod 2 ^ 23" by simp
  then show ?thesis unfolding scaled_high(1)[OF m] by (intro mult_pos_pos) simp_all
qed

lemma scaled_encode:
  assumes n: "0 \<le> n" "n \<le> 2 ^ 24" and k: "k = 0 \<or> 2 ^ 23 \<le> n"
  shows "scaled (int k * 2 ^ 23 + n) = n * 2 ^ k"
proof (cases "n < 2 ^ 23")
  case True
  with k have "k = 0" by simp
  then show ?thesis using True n by (simp add: scaled_low)
next
  case False
  then have n23: "2 ^ 23 \<le> n" by simp
  show ?thesis
  proof (cases "n = 2 ^ 24")
    case True
    have e: "int k * 2 ^ 23 + n = (int k + 2) * 2 ^ 23" unfolding True by simp
    have "(2::int) ^ 23 \<le> (int k + 2) * 2 ^ 23" by simp
    from scaled_high(1)[OF this]
    have "scaled ((int k + 2) * 2 ^ 23) = 2 ^ 23 * 2 ^ nat (int k + 2 - 1)" by simp
    also have "nat (int k + 2 - 1) = Suc k" by simp
    finally show ?thesis unfolding e True by simp
  next
    case False
    define f where "f = n - 2 ^ 23"
    have f: "0 \<le> f" "f < 2 ^ 23" using n n23 False by (simp_all add: f_def)
    have e: "int k * 2 ^ 23 + n = f + (int k + 1) * 2 ^ 23" by (simp add: f_def algebra_simps)
    have "(f + (int k + 1) * 2 ^ 23) div 2 ^ 23 = (int k + 1) + f div 2 ^ 23"
      by (rule div_mult_self1) simp
    also have "f div 2 ^ 23 = 0" using f by (intro div_pos_pos_trivial)
    finally have d: "(f + (int k + 1) * 2 ^ 23) div 2 ^ 23 = int k + 1" by simp
    have "(f + (int k + 1) * 2 ^ 23) mod 2 ^ 23 = f mod 2 ^ 23"
      by (rule mod_mult_self1)
    also have "f mod 2 ^ 23 = f" using f by (intro mod_pos_pos_trivial)
    finally have mo: "(f + (int k + 1) * 2 ^ 23) mod 2 ^ 23 = f" .
    have "(2::int) ^ 23 \<le> f + (int k + 1) * 2 ^ 23" using f by (simp add: algebra_simps)
    from scaled_high(1)[OF this]
    have "scaled (f + (int k + 1) * 2 ^ 23) = (2 ^ 23 + f) * 2 ^ nat (int k + 1 - 1)"
      by (simp only: d mo)
    then show ?thesis unfolding e by (simp add: f_def)
  qed
qed

lemma ilog2_small: "n < 2 \<Longrightarrow> ilog2 n = 0"
  by (subst ilog2.simps) simp

lemma ilog2_bounds: "1 \<le> n \<Longrightarrow> 2 ^ ilog2 n \<le> n \<and> n < 2 ^ Suc (ilog2 n)"
proof (induction n rule: ilog2.induct)
  case (1 n)
  show ?case
  proof (cases "n < 2")
    case True
    with 1(2) have "n = 1" by simp
    then show ?thesis by (simp add: ilog2_small)
  next
    case False
    then have h: "1 \<le> n div 2" by simp
    have s: "ilog2 n = Suc (ilog2 (n div 2))" using False by (subst ilog2.simps) simp
    from 1(1)[OF False h]
    have IH: "2 ^ ilog2 (n div 2) \<le> n div 2" "n div 2 < 2 ^ Suc (ilog2 (n div 2))" by simp_all
    have "2 * 2 ^ ilog2 (n div 2) \<le> 2 * (n div 2)" using IH(1) by simp
    also have "\<dots> \<le> n" by simp
    finally have lo: "2 ^ ilog2 n \<le> n" unfolding s by simp
    have "n div 2 + 1 \<le> 2 ^ Suc (ilog2 (n div 2))" using IH(2) by simp
    then have "2 * (n div 2 + 1) \<le> 2 * 2 ^ Suc (ilog2 (n div 2))" by simp
    moreover have "n < 2 * (n div 2 + 1)" by simp
    ultimately have "n < 2 ^ Suc (ilog2 n)" unfolding s by simp
    with lo show ?thesis by simp
  qed
qed

lemma rhe_between: "\<lfloor>y\<rfloor> \<le> rhe y" "rhe y \<le> \<lfloor>y\<rfloor> + 1"
  by (simp_all add: rhe_def Let_def)

lemma rhe_ge:
  assumes "of_int z \<le> y" shows "z \<le> rhe y"
proof -
  have "z \<le> \<lfloor>y\<rfloor>" using assms by (simp add: le_floor_iff)
  then show ?thesis using rhe_between(1)[of y] by (rule order_trans)
qed

lemma rhe_le:
  assumes "y \<le> of_int z" shows "rhe y \<le> z"
proof (cases "y = of_int \<lfloor>y\<rfloor>")
  case True
  then have "rhe y = \<lfloor>y\<rfloor>" by (simp add: rhe_def Let_def)
  moreover have "\<lfloor>y\<rfloor> \<le> \<lfloor>of_int z :: rat\<rfloor>" using assms by (rule floor_mono)
  then have "\<lfloor>y\<rfloor> \<le> z" by simp
  ultimately show ?thesis by simp
next
  case False
  then have "of_int \<lfloor>y\<rfloor> \<noteq> y" by (rule not_sym)
  moreover have "of_int \<lfloor>y\<rfloor> \<le> y" by (rule of_int_floor_le)
  ultimately have "of_int \<lfloor>y\<rfloor> < y" by (rule order.not_eq_order_implies_strict)
  with assms have "(of_int \<lfloor>y\<rfloor> :: rat) < of_int z" by simp
  then have "\<lfloor>y\<rfloor> < z" by simp
  then show ?thesis using rhe_between(2)[of y] by simp
qed

section \<open>Binary32: rounding to nearest is monotone\<close>

lemma spacing_zero:
  assumes "spacing x = 0"
  shows "x < 2 ^ 24"
proof -
  have l: "ilog2 \<lfloor>x\<rfloor> \<le> 23" using assms by (simp add: spacing_def)
  have "\<lfloor>x\<rfloor> < 2 ^ 24"
  proof (cases "1 \<le> \<lfloor>x\<rfloor>")
    case True
    from ilog2_bounds[OF True] have "\<lfloor>x\<rfloor> < 2 ^ Suc (ilog2 \<lfloor>x\<rfloor>)" by simp
    also have "(2::int) ^ Suc (ilog2 \<lfloor>x\<rfloor>) \<le> 2 ^ 24"
      using l by (intro power_increasing) simp_all
    finally show ?thesis .
  next
    case False
    then have "\<lfloor>x\<rfloor> < 1" by simp
    also have "(1::int) < 2 ^ 24" by simp
    finally show ?thesis .
  qed
  then have "x < of_int (2 ^ 24)" by (simp only: floor_less_iff)
  then show ?thesis by simp
qed

lemma spacing_pos:
  assumes "0 < spacing x"
  shows "2 ^ (spacing x + 23) \<le> x" and "x < 2 ^ (spacing x + 24)"
proof -
  have l: "ilog2 \<lfloor>x\<rfloor> = spacing x + 23" using assms by (simp add: spacing_def)
  have one: "1 \<le> \<lfloor>x\<rfloor>"
  proof (rule ccontr)
    assume "\<not> 1 \<le> \<lfloor>x\<rfloor>"
    then have "ilog2 \<lfloor>x\<rfloor> = 0" by (intro ilog2_small) simp
    with l show False by simp
  qed
  have S: "Suc (spacing x + 23) = spacing x + 24" by simp
  from ilog2_bounds[OF one]
  have b: "2 ^ (spacing x + 23) \<le> \<lfloor>x\<rfloor>" "\<lfloor>x\<rfloor> < 2 ^ (spacing x + 24)"
    unfolding l S by blast+
  have "of_int (2 ^ (spacing x + 23)) \<le> x" using b(1) by (simp only: le_floor_iff)
  then show "2 ^ (spacing x + 23) \<le> x" by simp
  have "x < of_int (2 ^ (spacing x + 24))" using b(2) by (simp only: floor_less_iff)
  then show "x < 2 ^ (spacing x + 24)" by simp
qed

lemma quot_le:
  fixes x :: rat
  assumes "x \<le> of_int (n * 2 ^ j)" "k \<le> j"
  shows "x / 2 ^ k \<le> of_int (n * 2 ^ (j - k))"
proof -
  have "(2::rat) ^ j = 2 ^ (j - k) * 2 ^ k"
    using assms(2) by (simp add: power_add[symmetric])
  then have "x \<le> of_int (n * 2 ^ (j - k)) * 2 ^ k" using assms(1) by (simp add: mult.assoc)
  then show ?thesis by (simp add: pos_divide_le_eq)
qed

lemma quot_ge:
  fixes x :: rat
  assumes "of_int (n * 2 ^ j) \<le> x" "k \<le> j"
  shows "of_int (n * 2 ^ (j - k)) \<le> x / 2 ^ k"
proof -
  have "(2::rat) ^ j = 2 ^ (j - k) * 2 ^ k"
    using assms(2) by (simp add: power_add[symmetric])
  then have "of_int (n * 2 ^ (j - k)) * 2 ^ k \<le> x" using assms(1) by (simp add: mult.assoc)
  then show ?thesis by (simp add: pos_le_divide_eq)
qed

lemma int_pow_split: "k \<le> j \<Longrightarrow> n * 2 ^ (j - k) * 2 ^ k = (n * 2 ^ j :: int)"
  by (simp add: power_add[symmetric] mult.assoc)

lemma rounded_le:
  assumes x: "x \<le> of_int (n * 2 ^ j)" and n: "n < 2 ^ 24"
  shows "rounded x \<le> n * 2 ^ j"
proof (cases "spacing x \<le> j")
  case True
  from quot_le[OF x True] have "rhe (x / 2 ^ spacing x) \<le> n * 2 ^ (j - spacing x)"
    by (rule rhe_le)
  then have "rounded x \<le> n * 2 ^ (j - spacing x) * 2 ^ spacing x"
    unfolding rounded_def by (intro mult_right_mono) simp_all
  then show ?thesis by (simp only: int_pow_split[OF True])
next
  case False
  then have k: "0 < spacing x" "j + 24 \<le> spacing x + 23" by simp_all
  have "n * 2 ^ j < 2 ^ 24 * 2 ^ j" using n by (intro mult_strict_right_mono) simp_all
  also have "\<dots> = (2::int) ^ (j + 24)" by (simp add: power_add)
  also have "\<dots> \<le> 2 ^ (spacing x + 23)" using k(2) by (intro power_increasing) simp_all
  finally have "(of_int (n * 2 ^ j) :: rat) < of_int (2 ^ (spacing x + 23))"
    by (simp only: of_int_less_iff)
  also have "\<dots> \<le> x" using spacing_pos(1)[OF k(1)] by simp
  finally show ?thesis using x by simp
qed

lemma rounded_ge:
  assumes x: "of_int (n * 2 ^ j) \<le> x" and n: "n < 2 ^ 24"
  shows "n * 2 ^ j \<le> rounded x"
proof (cases "spacing x \<le> j")
  case True
  from quot_ge[OF x True] have "n * 2 ^ (j - spacing x) \<le> rhe (x / 2 ^ spacing x)"
    by (rule rhe_ge)
  then have "n * 2 ^ (j - spacing x) * 2 ^ spacing x \<le> rounded x"
    unfolding rounded_def by (intro mult_right_mono) simp_all
  then show ?thesis by (simp only: int_pow_split[OF True])
next
  case False
  then have k: "0 < spacing x" "j + 24 \<le> spacing x + 23" by simp_all
  have "(of_int (2 ^ 23) :: rat) \<le> x / 2 ^ spacing x"
    using spacing_pos(1)[OF k(1)] by (simp add: pos_le_divide_eq power_add mult.commute)
  then have "2 ^ 23 \<le> rhe (x / 2 ^ spacing x)" by (rule rhe_ge)
  then have "2 ^ 23 * 2 ^ spacing x \<le> rounded x"
    unfolding rounded_def by (intro mult_right_mono) simp_all
  moreover have "n * 2 ^ j \<le> 2 ^ 24 * 2 ^ j" using n by (intro mult_right_mono) simp_all
  moreover have "(2::int) ^ 24 * 2 ^ j = 2 ^ (j + 24)" by (simp add: power_add)
  moreover have "(2::int) ^ (j + 24) \<le> 2 ^ (spacing x + 23)"
    using k(2) by (intro power_increasing) simp_all
  moreover have "(2::int) ^ 23 * 2 ^ spacing x = 2 ^ (spacing x + 23)" by (simp add: power_add)
  ultimately show ?thesis by linarith
qed

lemma scaled_inf: "scaled 0x7F800000 = 2 ^ 277"
  by code_simp

lemma rounded_range:
  assumes "0 \<le> x"
  shows "0 \<le> rhe (x / 2 ^ spacing x)" and "rhe (x / 2 ^ spacing x) \<le> 2 ^ 24"
    and "spacing x = 0 \<or> 2 ^ 23 \<le> rhe (x / 2 ^ spacing x)"
proof -
  let ?k = "spacing x" and ?y = "x / 2 ^ spacing x"
  have "(of_int 0 :: rat) \<le> ?y" using assms by simp
  then show "0 \<le> rhe ?y" by (rule rhe_ge)
  have "?y \<le> of_int (2 ^ 24)"
  proof (cases "?k = 0")
    case True
    from spacing_zero[OF True] show ?thesis by (simp add: True)
  next
    case False
    then have "x < 2 ^ (?k + 24)" by (intro spacing_pos(2)) simp
    then have "x \<le> 2 ^ 24 * 2 ^ ?k" by (simp add: power_add mult.commute)
    then show ?thesis by (simp add: pos_divide_le_eq)
  qed
  then show "rhe ?y \<le> 2 ^ 24" by (rule rhe_le)
  show "?k = 0 \<or> 2 ^ 23 \<le> rhe ?y"
  proof (cases "?k = 0")
    case True
    then show ?thesis by simp
  next
    case False
    then have "2 ^ (?k + 23) \<le> x" by (intro spacing_pos(1)) simp
    then have "(of_int (2 ^ 23) :: rat) \<le> ?y"
      by (simp add: pos_le_divide_eq power_add mult.commute)
    then have "2 ^ 23 \<le> rhe ?y" by (rule rhe_ge)
    then show ?thesis by simp
  qed
qed

lemma round_mag_value:
  assumes "0 \<le> x"
  shows "scaled (round_mag x) = min (rounded x) (2 ^ 277)"
proof -
  let ?k = "spacing x" and ?n = "rhe (x / 2 ^ spacing x)"
  show ?thesis
  proof (cases "2 ^ 277 \<le> ?n * 2 ^ ?k")
    case True
    then have "round_mag x = 0x7F800000" by (simp add: round_mag_def Let_def)
    then show ?thesis using True by (simp only: scaled_inf rounded_def min_def) simp
  next
    case False
    then have "round_mag x = int ?k * 2 ^ 23 + ?n" by (simp add: round_mag_def Let_def)
    then have "scaled (round_mag x) = ?n * 2 ^ ?k"
      using scaled_encode[OF rounded_range[OF assms]] by simp
    then show ?thesis using False by (simp only: rounded_def min_def) simp
  qed
qed

lemma round_mag_range:
  assumes "0 \<le> x"
  shows "0 \<le> round_mag x" and "round_mag x \<le> 0x7F800000"
proof -
  let ?k = "spacing x" and ?n = "rhe (x / 2 ^ spacing x)"
  note R = rounded_range[OF assms]
  have "0 \<le> round_mag x \<and> round_mag x \<le> 0x7F800000"
  proof (cases "2 ^ 277 \<le> ?n * 2 ^ ?k")
    case True
    then show ?thesis by (simp add: round_mag_def Let_def)
  next
    case False
    then have r: "round_mag x = int ?k * 2 ^ 23 + ?n" by (simp add: round_mag_def Let_def)
    have k: "?k \<le> 253"
    proof (rule ccontr)
      assume "\<not> ?k \<le> 253"
      then have k254: "254 \<le> ?k" by simp
      then have "2 ^ 23 \<le> ?n" using R(3) by auto
      then have "2 ^ 23 * 2 ^ ?k \<le> ?n * 2 ^ ?k" by (intro mult_right_mono) simp_all
      moreover have "(2::int) ^ 23 * 2 ^ ?k = 2 ^ (23 + ?k)" by (simp add: power_add)
      moreover have "(2::int) ^ 277 \<le> 2 ^ (23 + ?k)"
        using k254 by (intro power_increasing) simp_all
      ultimately show False using False by linarith
    qed
    then have "int ?k * 2 ^ 23 \<le> 253 * 2 ^ 23" by simp
    with R(1,2) show ?thesis unfolding r by simp
  qed
  then show "0 \<le> round_mag x" and "round_mag x \<le> 0x7F800000" by simp_all
qed

lemma f_sign_mk:
  assumes "0 \<le> p" "p < 2 ^ 31"
  shows "f_sign (mk_f32 s p) = s"
proof -
  have "p div 2 ^ 31 = 0" using assms by (intro div_pos_pos_trivial)
  then have "\<not> bit p 31" by (simp add: bit_iff_odd)
  then have "\<not> bit (word_of_int p :: f32) 31" by (simp add: bit_word_of_int_iff)
  then show ?thesis by (simp add: f_sign_def mk_f32_def bit_or_iff)
qed

lemma f_mag_mk:
  assumes "0 \<le> p" "p < 2 ^ 31"
  shows "f_mag (mk_f32 s p) = p"
proof -
  have t: "take_bit 31 (if s then 0x80000000 else 0 :: f32) = 0" by simp
  have "take_bit 31 (mk_f32 s p) = take_bit 31 (word_of_int p :: f32)"
    unfolding mk_f32_def take_bit_or t by simp
  then have "f_mag (mk_f32 s p) = take_bit 31 (uint (word_of_int p :: f32))"
    by (simp add: f_mag_def unsigned_take_bit_eq)
  also have "uint (word_of_int p :: f32) = take_bit 32 p" by (simp add: uint_word_of_int_eq)
  also have "take_bit 31 (take_bit 32 p) = take_bit 31 p" by simp
  also have "\<dots> = p" using assms by (simp add: take_bit_int_eq_self)
  finally show ?thesis .
qed

lemma f_round_props:
  shows "f_val (f_round x) = (if x < 0 then - min (rounded (- x)) (2 ^ 277) else min (rounded x) (2 ^ 277))"
    and "\<not> is_nan (f_round x)"
proof -
  define y where "y = (if x < 0 then - x else x)"
  have y: "0 \<le> y" by (simp add: y_def)
  have r: "0 \<le> round_mag y" "round_mag y < 2 ^ 31" "round_mag y \<le> 0x7F800000"
    using round_mag_range[OF y] by simp_all
  have f: "f_round x = mk_f32 (x < 0) (round_mag y)" by (simp add: f_round_def y_def)
  show "\<not> is_nan (f_round x)"
    unfolding f is_nan_def f_mag_mk[OF r(1,2)] using r(3) by simp
  show "f_val (f_round x) = (if x < 0 then - min (rounded (- x)) (2 ^ 277) else min (rounded x) (2 ^ 277))"
    unfolding f f_val_def f_mag_mk[OF r(1,2)] f_sign_mk[OF r(1,2)] round_mag_value[OF y]
    by (simp add: y_def)
qed

lemma rounded_nonneg: "0 \<le> x \<Longrightarrow> 0 \<le> rounded x"
  unfolding rounded_def using rounded_range(1)[of x] by simp

lemma scaled_bound:
  assumes "0 \<le> m" "m \<le> 0x7F800000"
  shows "scaled m \<le> 2 ^ 277"
proof (cases "m < 2 ^ 23")
  case True
  then have "scaled m = m" using assms by (simp add: scaled_low)
  also have "m \<le> 2 ^ 23" using True by simp
  also have "(2::int) ^ 23 \<le> 2 ^ 277" by (intro power_increasing) simp_all
  finally show ?thesis .
next
  case False
  then have m: "2 ^ 23 \<le> m" by simp
  define e f where "e = m div 2 ^ 23" and "f = m mod 2 ^ 23"
  have s: "scaled m = (2 ^ 23 + f) * 2 ^ nat (e - 1)" and e1: "1 \<le> e"
    using scaled_high[OF m] by (simp_all add: e_def f_def)
  have f: "0 \<le> f" "f < 2 ^ 23" by (simp_all add: f_def)
  have mef: "m = e * 2 ^ 23 + f" by (simp add: e_def f_def)
  have e255: "e \<le> 255"
  proof -
    have "m div 2 ^ 23 \<le> 0x7F800000 div 2 ^ 23" using assms(2) by (rule zdiv_mono1) simp
    then show ?thesis by (simp add: e_def)
  qed
  show ?thesis
  proof (cases "e = 255")
    case True
    then have "f = 0" using assms(2) f(1) unfolding mef by simp
    then have "scaled m = 2 ^ 23 * 2 ^ 254" unfolding s True by simp
    also have "\<dots> = (2::int) ^ 277" by (simp add: power_add[symmetric])
    finally show ?thesis by simp
  next
    case False
    then have "nat (e - 1) \<le> 253" using e255 by simp
    then have "(2::int) ^ nat (e - 1) \<le> 2 ^ 253" by (intro power_increasing) simp_all
    moreover have "2 ^ 23 + f \<le> 2 ^ 24" using f(2) by simp
    ultimately have "(2 ^ 23 + f) * 2 ^ nat (e - 1) \<le> 2 ^ 24 * 2 ^ 253"
      using f(1) by (intro mult_mono) simp_all
    also have "\<dots> = (2::int) ^ 277" by (simp add: power_add[symmetric])
    finally show ?thesis unfolding s .
  qed
qed

lemma f_val_form:
  assumes "\<not> is_nan a"
  shows "\<exists>n j. 0 \<le> n \<and> n < 2 ^ 24 \<and> n * 2 ^ j \<le> 2 ^ 277 \<and>
           (f_val a = n * 2 ^ j \<or> f_val a = - (n * 2 ^ j))"
proof -
  from scaled_form[OF f_mag_range(1), of a] obtain n j
    where nj: "scaled (f_mag a) = n * 2 ^ j" "0 \<le> n" "n < 2 ^ 24" by blast
  have "f_mag a \<le> 0x7F800000" using assms by (simp add: is_nan_def)
  from scaled_bound[OF f_mag_range(1) this] have "n * 2 ^ j \<le> 2 ^ 277" by (simp only: nj(1))
  moreover have "f_val a = n * 2 ^ j \<or> f_val a = - (n * 2 ^ j)"
    by (simp add: f_val_def nj(1))
  ultimately show ?thesis using nj(2,3) by blast
qed

lemma f_round_up:
  assumes a: "\<not> is_nan a" and x: "x \<le> of_int (f_val a)"
  shows "f_val (f_round x) \<le> f_val a"
proof -
  from f_val_form[OF a] obtain n j
    where n: "0 \<le> n" "n < 2 ^ 24" "n * 2 ^ j \<le> 2 ^ 277"
      and v: "f_val a = n * 2 ^ j \<or> f_val a = - (n * 2 ^ j)" by blast
  have F0: "0 \<le> n * 2 ^ j" using n(1) by simp
  show ?thesis
  proof (cases "x < 0")
    case True
    then have r: "f_val (f_round x) = - min (rounded (- x)) (2 ^ 277)"
      by (simp add: f_round_props(1))
    have r0: "0 \<le> rounded (- x)" using True by (intro rounded_nonneg) simp
    from v show ?thesis
    proof
      assume "f_val a = n * 2 ^ j"
      then show ?thesis unfolding r using F0 r0 by simp
    next
      assume va: "f_val a = - (n * 2 ^ j)"
      then have "of_int (n * 2 ^ j) \<le> - x" using x by simp
      from rounded_ge[OF this n(2)] show ?thesis unfolding r va using n(3) by simp
    qed
  next
    case False
    then have r: "f_val (f_round x) = min (rounded x) (2 ^ 277)"
      by (simp add: f_round_props(1))
    from v show ?thesis
    proof
      assume va: "f_val a = n * 2 ^ j"
      from rounded_le[OF x[unfolded va] n(2)] show ?thesis unfolding r va by simp
    next
      assume va: "f_val a = - (n * 2 ^ j)"
      have "(0::rat) \<le> of_int (f_val a)" using False x by simp
      then have "0 \<le> f_val a" by (simp only: of_int_0_le_iff)
      then have z: "f_val a = 0" using va F0 by linarith
      then have "x \<le> of_int (0 * 2 ^ 0)" using x by simp
      from rounded_le[OF this] have "rounded x \<le> 0" by simp
      then show ?thesis unfolding r z by simp
    qed
  qed
qed

lemma f_round_down:
  assumes a: "\<not> is_nan a" and x: "of_int (f_val a) \<le> x"
  shows "f_val a \<le> f_val (f_round x)"
proof -
  from f_val_form[OF a] obtain n j
    where n: "0 \<le> n" "n < 2 ^ 24" "n * 2 ^ j \<le> 2 ^ 277"
      and v: "f_val a = n * 2 ^ j \<or> f_val a = - (n * 2 ^ j)" by blast
  have F0: "0 \<le> n * 2 ^ j" using n(1) by simp
  show ?thesis
  proof (cases "x < 0")
    case True
    then have r: "f_val (f_round x) = - min (rounded (- x)) (2 ^ 277)"
      by (simp add: f_round_props(1))
    have neg: "f_val a < 0"
    proof -
      have "(of_int (f_val a) :: rat) < 0" using x True by simp
      then show ?thesis by simp
    qed
    with v F0 have va: "f_val a = - (n * 2 ^ j)" by auto
    have "- x \<le> of_int (n * 2 ^ j)" using x unfolding va by simp
    from rounded_le[OF this n(2)] show ?thesis unfolding r va by simp
  next
    case False
    then have r: "f_val (f_round x) = min (rounded x) (2 ^ 277)"
      by (simp add: f_round_props(1))
    have r0: "0 \<le> rounded x" using False by (intro rounded_nonneg) simp
    from v show ?thesis
    proof
      assume va: "f_val a = n * 2 ^ j"
      from rounded_ge[OF x[unfolded va] n(2)] show ?thesis unfolding r va using n(3) by simp
    next
      assume va: "f_val a = - (n * 2 ^ j)"
      then show ?thesis unfolding r using F0 r0 by simp
    qed
  qed
qed

lemma f_mag_fneg: "f_mag (fneg a) = f_mag a"
proof -
  have "take_bit 31 (0x80000000 :: f32) = 0" by simp
  then have "take_bit 31 (a XOR 0x80000000) = take_bit 31 a"
    by (simp only: take_bit_xor) simp
  then show ?thesis by (simp add: f_mag_def fneg_def)
qed

lemma f_sign_fneg: "f_sign (fneg a) = (\<not> f_sign a)"
proof -
  have "bit (0x80000000 :: f32) 31" by (simp add: bit_iff_odd_drop_bit drop_bit_eq_div)
  then show ?thesis by (simp add: f_sign_def fneg_def bit_xor_iff)
qed

lemma f_val_fneg: "f_val (fneg a) = - f_val a"
  by (simp add: f_val_def f_mag_fneg f_sign_fneg)

lemma is_nan_fneg: "is_nan (fneg a) = is_nan a"
  by (simp add: is_nan_def f_mag_fneg)

lemma is_finite_fneg: "is_finite (fneg a) = is_finite a"
  by (simp add: is_finite_def f_mag_fneg)

lemma finite_not_special: "is_finite a \<Longrightarrow> \<not> is_nan a \<and> \<not> is_inf a"
  by (simp add: is_finite_def is_nan_def is_inf_def)

lemma f_val_mk_zero: "f_val (mk_f32 s 0) = 0" "\<not> is_nan (mk_f32 s 0)"
proof -
  have m: "f_mag (mk_f32 s 0) = 0" by (rule f_mag_mk) simp_all
  show "f_val (mk_f32 s 0) = 0" by (simp add: f_val_def m scaled_def)
  show "\<not> is_nan (mk_f32 s 0)" by (simp add: is_nan_def m)
qed

lemma fadd_finite:
  assumes "is_finite a" "is_finite b"
  shows "\<not> is_nan (fadd a b)"
    and "\<not> is_nan c \<Longrightarrow> f_val a + f_val b \<le> f_val c \<Longrightarrow> f_val (fadd a b) \<le> f_val c"
    and "\<not> is_nan c \<Longrightarrow> f_val c \<le> f_val a + f_val b \<Longrightarrow> f_val c \<le> f_val (fadd a b)"
proof -
  define r where "r = f_val a + f_val b"
  have e: "fadd a b = (if r = 0 then mk_f32 (f_sign a \<and> f_sign b) 0 else f_round (of_int r))"
    using finite_not_special[OF assms(1)] finite_not_special[OF assms(2)]
    by (simp add: fadd_def Let_def r_def)
  show "\<not> is_nan (fadd a b)"
    unfolding e by (simp add: f_val_mk_zero(2) f_round_props(2))
  show "f_val (fadd a b) \<le> f_val c" if c: "\<not> is_nan c" and le: "f_val a + f_val b \<le> f_val c"
  proof (cases "r = 0")
    case True
    then show ?thesis unfolding e using le by (simp add: f_val_mk_zero(1) r_def)
  next
    case False
    have "(of_int r :: rat) \<le> of_int (f_val c)" using le by (simp add: r_def)
    from f_round_up[OF c this] show ?thesis unfolding e using False by simp
  qed
  show "f_val c \<le> f_val (fadd a b)" if c: "\<not> is_nan c" and le: "f_val c \<le> f_val a + f_val b"
  proof (cases "r = 0")
    case True
    then show ?thesis unfolding e using le by (simp add: f_val_mk_zero(1) r_def)
  next
    case False
    have "(of_int (f_val c) :: rat) \<le> of_int r" using le by (simp add: r_def)
    from f_round_down[OF c this] show ?thesis unfolding e using False by simp
  qed
qed

lemma fsub_finite:
  assumes "is_finite a" "is_finite b"
  shows "\<not> is_nan (fsub a b)"
    and "\<not> is_nan c \<Longrightarrow> f_val a - f_val b \<le> f_val c \<Longrightarrow> f_val (fsub a b) \<le> f_val c"
    and "\<not> is_nan c \<Longrightarrow> f_val c \<le> f_val a - f_val b \<Longrightarrow> f_val c \<le> f_val (fsub a b)"
proof -
  have nb: "is_finite (fneg b)" using assms(2) by (simp add: is_finite_fneg)
  note A = fadd_finite[OF assms(1) nb]
  show "\<not> is_nan (fsub a b)" using A(1) by (simp add: fsub_def)
  show "f_val (fsub a b) \<le> f_val c" if "\<not> is_nan c" "f_val a - f_val b \<le> f_val c"
    using A(2)[of c] that by (simp add: fsub_def f_val_fneg)
  show "f_val c \<le> f_val (fsub a b)" if "\<not> is_nan c" "f_val c \<le> f_val a - f_val b"
    using A(3)[of c] that by (simp add: fsub_def f_val_fneg)
qed

lemma flt_irrefl: "\<not> flt a a"
  by (simp add: flt_def)

lemma f_val_zero: "f_val f_zero = 0" "\<not> is_nan f_zero"
  by (simp_all add: f_zero_def f_val_def f_sign_def f_mag_def scaled_def is_nan_def)

lemma f_val_one: "f_val f_one = 2 ^ 149" "\<not> is_nan f_one"
  by code_simp+

lemma flt_one_zero: "\<not> flt f_one f_zero"
  by (simp add: flt_def f_val_zero f_val_one)

lemma flt_above_one: "flt f_one v \<Longrightarrow> \<not> flt v f_zero"
  by (simp add: flt_def f_val_zero f_val_one)

lemma Saturate_Clamp: "Saturate v = Clamp v f_zero f_one"
proof (cases "flt f_one v")
  case True
  then show ?thesis
    using flt_above_one[OF True] by (simp add: Saturate_def Clamp_def Let_def flt_one_zero)
next
  case False
  then show ?thesis by (simp add: Saturate_def Clamp_def Let_def flt_one_zero)
qed

lemma Saturate_ptr_Saturate: "Saturate_ptr p h = h(p := Saturate (h p))"
  by (simp add: Saturate_ptr_def Saturate_def Let_def)

section \<open>The claims on the floating-point functions\<close>

text \<open>
  C10. For every float \<open>v\<close>, the in-place overload \<open>Saturate(float*)\<close> leaves in the
  supplied location exactly the value that \<open>Saturate(float)\<close> returns for the old
  contents, and touches no other location; both equal \<open>Clamp(v, 0.0f, 1.0f)\<close>.
\<close>

theorem Saturate_overloads_agree:
  "Saturate_ptr p h = h(p := Saturate (h p)) \<and> Saturate v = Clamp v f_zero f_one"
  using Saturate_ptr_Saturate Saturate_Clamp by simp

lemma approxf_reflexive_iff:
  assumes f: "is_finite f" and e: "is_finite e" and pos: "flt f_zero e"
  shows "approxf f f e \<longleftrightarrow> f_val (fsub f e) \<noteq> f_val f \<and> f_val (fadd f e) \<noteq> f_val f"
proof -
  have nf: "\<not> is_nan f" using finite_not_special[OF f] by simp
  have e0: "0 < f_val e" using pos by (simp add: flt_def f_val_zero)
  have lo: "f_val (fsub f e) \<le> f_val f"
    using fsub_finite(2)[OF f e nf] e0 by simp
  have hi: "f_val f \<le> f_val (fadd f e)"
    using fadd_finite(3)[OF f e nf] e0 by simp
  have "approxf f f e \<longleftrightarrow> f_val (fsub f e) < f_val f \<and> f_val f < f_val (fadd f e)"
    using nf fsub_finite(1)[OF f e] fadd_finite(1)[OF f e] by (simp add: approxf_def flt_def)
  then show ?thesis using lo hi by auto
qed

lemma approxf_far_apart:
  assumes a: "is_finite a" and b: "is_finite b" and e: "is_finite e"
    and far: "f_val e \<le> \<bar>f_val a - f_val b\<bar>"
  shows "\<not> approxf a b e"
proof -
  have na: "\<not> is_nan a" using finite_not_special[OF a] by simp
  from far have "f_val b + f_val e \<le> f_val a \<or> f_val a \<le> f_val b - f_val e" by linarith
  then show ?thesis
  proof
    assume "f_val b + f_val e \<le> f_val a"
    from fadd_finite(2)[OF b e na this] show ?thesis by (simp add: approxf_def flt_def)
  next
    assume "f_val a \<le> f_val b - f_val e"
    from fsub_finite(3)[OF b e na this] show ?thesis by (simp add: approxf_def flt_def)
  qed
qed

text \<open>
  C6. The claim is that \<open>approxf a b \<epsilon>\<close> holds iff \<open>b - \<epsilon> < a < b + \<epsilon>\<close>
  strictly, hence that \<open>approxf f f \<epsilon>\<close> holds for every float \<open>f\<close> and every
  \<open>\<epsilon> > 0\<close>, and that \<open>approxf a b \<epsilon>\<close> fails whenever \<open>\<bar>a - b\<bar> \<ge> \<epsilon>\<close>.
  The two bounds are computed in single precision, so they are the rounded difference and
  sum. As amended: \<open>approxf a b \<epsilon>\<close> holds iff \<open>a\<close> lies strictly between the
  rounded \<open>b - \<epsilon>\<close> and the rounded \<open>b + \<epsilon>\<close>, a value equal to either rounded
  bound comparing not-equal; for finite \<open>f\<close> and finite \<open>\<epsilon> > 0\<close>,
  \<open>approxf f f \<epsilon>\<close> holds exactly when neither \<open>f - \<epsilon>\<close> nor \<open>f + \<epsilon>\<close>
  rounds back to \<open>f\<close>; and for finite \<open>a\<close>, \<open>b\<close>, \<open>\<epsilon>\<close> it fails whenever the
  exact \<open>\<bar>a - b\<bar>\<close> is at least \<open>\<epsilon>\<close>.
\<close>

theorem approxf_rounded_bounds:
  "(approxf a b e \<longleftrightarrow> flt (fsub b e) a \<and> flt a (fadd b e))
   \<and> \<not> approxf (fsub b e) b e \<and> \<not> approxf (fadd b e) b e
   \<and> (is_finite f \<and> is_finite e \<and> flt f_zero e \<longrightarrow>
        (approxf f f e \<longleftrightarrow> f_val (fsub f e) \<noteq> f_val f \<and> f_val (fadd f e) \<noteq> f_val f))
   \<and> (is_finite a \<and> is_finite b \<and> is_finite e \<and> f_val e \<le> \<bar>f_val a - f_val b\<bar>
        \<longrightarrow> \<not> approxf a b e)"
proof (intro conjI impI)
  show "approxf a b e \<longleftrightarrow> flt (fsub b e) a \<and> flt a (fadd b e)" by (simp add: approxf_def)
  show "\<not> approxf (fsub b e) b e" by (simp add: approxf_def flt_irrefl)
  show "\<not> approxf (fadd b e) b e" by (simp add: approxf_def flt_irrefl)
  show "approxf f f e \<longleftrightarrow> f_val (fsub f e) \<noteq> f_val f \<and> f_val (fadd f e) \<noteq> f_val f"
    if "is_finite f \<and> is_finite e \<and> flt f_zero e"
    using that approxf_reflexive_iff by blast
  show "\<not> approxf a b e"
    if "is_finite a \<and> is_finite b \<and> is_finite e \<and> f_val e \<le> \<bar>f_val a - f_val b\<bar>"
    using that approxf_far_apart by blast
qed

lemma i2f_values:
  "i2f 0 = 0x00000000" "i2f 1 = 0x3F800000" "i2f 3 = 0x40400000" "i2f 5 = 0x40A00000"
  "i2f 10 = 0x41200000" "i2f 15 = 0x41700000" "i2f (- 5) = 0xC0A00000"
  "i2f (- 3) = 0xC0400000" "i2f 1073741824 = 0x4E800000"
  by code_simp+

text \<open>
  The claim as stated fails at \<open>f = 2 ^ 30\<close> (pattern \<open>0x4E800000\<close>) and
  \<open>\<epsilon> = 1\<close> (pattern \<open>0x3F800000\<close>): floats near \<open>2 ^ 30\<close> are 64 or 128
  apart, \<open>2 ^ 30 - 1\<close> and \<open>2 ^ 30 + 1\<close> both round to \<open>2 ^ 30\<close>, and
  \<open>f > f\<close> is false.
\<close>

theorem approxf_not_reflexive:
  "is_finite 0x4E800000 \<and> is_finite 0x3F800000 \<and> flt f_zero 0x3F800000
   \<and> \<not> approxf 0x4E800000 0x4E800000 0x3F800000"
  by code_simp

text \<open>
  The amended statement at \<open>f = 10\<close>, \<open>\<epsilon> = 1\<close> (reflexive) and at \<open>a = 3\<close>,
  \<open>b = 1\<close>, \<open>\<epsilon> = 1\<close> (too far apart).
\<close>

theorem approxf_rounded_bounds_witness:
  "is_finite 0x41200000 \<and> is_finite 0x3F800000 \<and> flt f_zero 0x3F800000
   \<and> approxf 0x41200000 0x41200000 0x3F800000
   \<and> is_finite 0x40400000
   \<and> f_val 0x3F800000 \<le> \<bar>f_val 0x40400000 - f_val 0x3F800000\<bar>
   \<and> \<not> approxf 0x40400000 0x3F800000 0x3F800000"
proof -
  have h1: "is_finite 0x41200000 \<and> is_finite 0x3F800000 \<and> flt f_zero 0x3F800000"
    by code_simp
  have h2: "f_val (fsub 0x41200000 0x3F800000) \<noteq> f_val 0x41200000
            \<and> f_val (fadd 0x41200000 0x3F800000) \<noteq> f_val 0x41200000"
    by code_simp
  have h3: "is_finite 0x40400000 \<and> is_finite 0x3F800000 \<and> is_finite 0x3F800000
            \<and> f_val 0x3F800000 \<le> \<bar>f_val 0x40400000 - f_val 0x3F800000\<bar>"
    by code_simp
  from approxf_rounded_bounds[of _ _ "0x3F800000" "0x41200000"] h1 h2
  have r1: "approxf 0x41200000 0x41200000 0x3F800000" by blast
  from approxf_rounded_bounds[of "0x40400000" "0x3F800000" "0x3F800000"] h3
  have r2: "\<not> approxf 0x40400000 0x3F800000 0x3F800000" by blast
  from h1 h3 r1 r2 show ?thesis by blast
qed

lemma Sign_float_cases:
  "Sign_float k = (if f_sign k then f_minus_one else f_one)"
proof -
  have "k AND 0x80000000 = (if bit k 31 then 0x80000000 else 0)"
  proof (rule bit_word_eqI)
    fix n assume "n < LENGTH(32)"
    have "bit (0x80000000 :: u32) n \<longleftrightarrow> n = 31"
    proof -
      have "(0x80000000 :: u32) = 2 ^ 31" by simp
      then show ?thesis by (simp only: bit_exp_iff) auto
    qed
    then show "bit (k AND 0x80000000) n = bit (if bit k 31 then 0x80000000 else 0 :: u32) n"
      by (auto simp: bit_and_iff)
  qed
  then show ?thesis by (simp add: Sign_float_def f_sign_def f_minus_one_def f_one_def)
qed

lemma Sign_generic_cases:
  "Sign_generic k = (if \<not> is_nan k \<and> f_sign k \<and> f_mag k \<noteq> 0 then f_minus_one else f_one)"
proof -
  have "f_val k < 0 \<longleftrightarrow> f_sign k \<and> f_mag k \<noteq> 0"
  proof (cases "f_mag k = 0")
    case True
    then show ?thesis by (simp add: f_val_def scaled_def)
  next
    case False
    then have "0 < f_mag k" using f_mag_range(1)[of k] by simp
    then have "0 < scaled (f_mag k)" by (rule scaled_pos)
    then show ?thesis using False by (simp add: f_val_def)
  qed
  then show ?thesis by (simp add: Sign_generic_def flt_def f_val_zero)
qed

lemma Sign_float_agrees:
  "Sign_float k = Sign_generic k \<longleftrightarrow> \<not> (f_sign k \<and> (is_nan k \<or> f_mag k = 0))"
proof -
  have "f_minus_one \<noteq> f_one" by (simp add: f_minus_one_def f_one_def)
  then show ?thesis by (auto simp: Sign_float_cases Sign_generic_cases)
qed

text \<open>
  C4. The claim is that for every float \<open>k\<close> the overload \<open>Sign(float)\<close> returns
  the bit pattern that the generic \<open>Sign<float>\<close> returns. The overload copies the sign
  bit; the generic version tests \<open>k < 0\<close>, which is false for \<open>-0.0\<close> (pattern
  \<open>0x80000000\<close>): there the overload returns \<open>-1.0\<close> and the generic version
  \<open>+1.0\<close>. The same happens at the NaNs whose sign bit is set; the two agree on every
  other pattern (lemma \<open>Sign_float_agrees\<close>).
\<close>

theorem Sign_float_negative_zero:
  "Sign_float 0x80000000 = f_minus_one \<and> Sign_generic 0x80000000 = f_one
   \<and> f_minus_one \<noteq> f_one \<and> \<not> is_nan 0x80000000 \<and> f_val 0x80000000 = 0"
  by code_simp

lemma Sign_samples:
  "Sign_float 0xC0400000 = f_minus_one" "Sign_generic 0xC0400000 = f_minus_one"
  "Sign_float 0x00000000 = f_one" "Sign_generic 0x00000000 = f_one"
  "Sign_float 0x40400000 = f_one" "Sign_generic 0x40400000 = f_one"
  "Sign_int (- 3) = - 1" "Sign_int 0 = 1" "Sign_int 3 = 1"
  by code_simp+

lemma Normalize_above: "\<not> flt v mn \<Longrightarrow> flt mx v \<Longrightarrow> Normalize v mn mx = mx"
  by (simp add: Normalize_def)

lemma Normalize_below: "flt v mn \<Longrightarrow> Normalize v mn mx = mn"
  by (simp add: Normalize_def)

text \<open>
  C1. The claim is that \<open>Normalize value min max\<close> is always in \<open>[0, 1]\<close>, with
  \<open>Normalize(5, 0, 10) = 0.5\<close>, \<open>Normalize(-5, 0, 10) = 0.0\<close> and
  \<open>Normalize(15, 0, 10) = 1.0\<close>. Outside the bounds the function returns the bound
  itself, not its normalised position: \<open>Normalize(15, 0, 10)\<close> is \<open>10.0\<close>
  (pattern \<open>0x41200000\<close>; 15.0 is \<open>0x41700000\<close>, -5.0 is \<open>0xC0A00000\<close>,
  5.0 is \<open>0x40A00000\<close>, 0.5 is \<open>0x3F000000\<close>).
\<close>

theorem Normalize_returns_the_bound:
  "flt 0x00000000 0x41200000
   \<and> Normalize 0x41700000 0x00000000 0x41200000 = 0x41200000
   \<and> Normalize 0xC0A00000 0x00000000 0x41200000 = 0x00000000
   \<and> Normalize 0x40A00000 0x00000000 0x41200000 = 0x3F000000"
  by code_simp

text \<open>
  C3. The claim is that \<open>RoundToNearest\<close> rounds down when the remainder is below
  the exact half of \<open>nearest\<close>, with \<open>RoundToNearest(7, 5) = 5\<close>. The half is
  computed as \<open>nNearest/2\<close> on \<open>int\<close>, which is 2 for 5: the remainder 2 of 7 is
  not below it and the function rounds up to 10.
\<close>

theorem RoundToNearest_below_half_rounds_up:
  "RoundToNearest 7 5 = Some 10 \<and> RoundToNearest 8 5 = Some 10 \<and> RoundToNearest 3 10 = Some 3"
  by code_simp

lemma RoundToNearest_more:
  "RoundToNearest 6 5 = Some 5" "RoundToNearest 12 5 = Some 15" "RoundToNearest 7 4 = Some 8"
  "RoundToNearest 5 4 = Some 4" "RoundToNearest 6 4 = Some 8"
  by code_simp+

end
